theory Spec2Isabelle
  imports Main
begin

section \<open>Numbers: Python integers mixed with the float infinity\<close>

text \<open>
  The capacities of \<^verbatim>\<open>task_1.py\<close> are Python integers, except the weight
  \<^verbatim>\<open>float("inf")\<close> of the edges that \<^verbatim>\<open>add_super_source_sink\<close> adds, and
  \<^verbatim>\<open>path_flow\<close> starts at \<^verbatim>\<open>float("inf")\<close>. The only floats that can arise from
  integers and infinities are the two infinities and NaN (\<^verbatim>\<open>inf - inf\<close>). The type
  \<open>pynum\<close> holds exactly these values: unbounded integers and the three floats. Finite
  floats with a fractional part are outside the model.
\<close>

datatype pynum = Num int | PInf | NInf | NaN

datatype error = IndexError | KeyError | OverflowError

fun pneg :: "pynum \<Rightarrow> pynum" where
  "pneg (Num a) = Num (- a)"
| "pneg PInf = NInf"
| "pneg NInf = PInf"
| "pneg NaN = NaN"

text \<open>
  The value of a sum and of a difference, when Python computes one: exact on two
  integers, the IEEE result as soon as a float takes part.
\<close>

fun ext_add :: "pynum \<Rightarrow> pynum \<Rightarrow> pynum" where
  "ext_add (Num a) (Num b) = Num (a + b)"
| "ext_add NaN _ = NaN"
| "ext_add _ NaN = NaN"
| "ext_add PInf NInf = NaN"
| "ext_add NInf PInf = NaN"
| "ext_add PInf _ = PInf"
| "ext_add _ PInf = PInf"
| "ext_add NInf _ = NInf"
| "ext_add _ NInf = NInf"

definition ext_sub :: "pynum \<Rightarrow> pynum \<Rightarrow> pynum" where
  "ext_sub a b = ext_add a (pneg b)"

text \<open>
  \<^verbatim>\<open>a + b\<close> and \<^verbatim>\<open>a - b\<close>. When one operand is an integer and the other a float,
  Python first converts the integer to a double, and raises \<^verbatim>\<open>OverflowError\<close> when
  the integer rounds to \<^verbatim>\<open>2**1024\<close> or beyond, that is when its magnitude is at least
  \<^verbatim>\<open>2**1024 - 2**970\<close>. Two integers, and two floats, never raise.
\<close>

definition dbl_limit :: int where
  "dbl_limit = 2 ^ 1024 - 2 ^ 970"

definition float_ok :: "int \<Rightarrow> bool" where
  "float_ok i \<longleftrightarrow> - dbl_limit < i \<and> i < dbl_limit"

fun arith_ok :: "pynum \<Rightarrow> pynum \<Rightarrow> bool" where
  "arith_ok (Num a) (Num b) = True"
| "arith_ok (Num a) _ = float_ok a"
| "arith_ok _ (Num b) = float_ok b"
| "arith_ok _ _ = True"

definition py_add :: "pynum \<Rightarrow> pynum \<Rightarrow> error + pynum" where
  "py_add a b = (if arith_ok a b then Inr (ext_add a b) else Inl OverflowError)"

definition py_sub :: "pynum \<Rightarrow> pynum \<Rightarrow> error + pynum" where
  "py_sub a b = (if arith_ok a b then Inr (ext_sub a b) else Inl OverflowError)"

text \<open>
  \<open>plt a b\<close> is Python's \<^verbatim>\<open>a < b\<close>: every comparison with NaN is false. An integer
  and a float are compared exactly, without a conversion that could overflow.
\<close>

fun plt :: "pynum \<Rightarrow> pynum \<Rightarrow> bool" where
  "plt (Num a) (Num b) = (a < b)"
| "plt NaN _ = False"
| "plt _ NaN = False"
| "plt _ NInf = False"
| "plt PInf _ = False"
| "plt NInf _ = True"
| "plt _ PInf = True"

text \<open>\<open>pgt0 a\<close> is \<^verbatim>\<open>a > 0\<close>, which Python evaluates as \<^verbatim>\<open>0 < a\<close>.\<close>

definition pgt0 :: "pynum \<Rightarrow> bool" where
  "pgt0 a = plt (Num 0) a"

text \<open>
  \<open>pymin a b\<close> is the builtin \<^verbatim>\<open>min(a, b)\<close>: it keeps its first argument unless the
  second one compares smaller.
\<close>

definition pymin :: "pynum \<Rightarrow> pynum \<Rightarrow> pynum" where
  "pymin a b = (if plt b a then b else a)"

text \<open>\<open>peq a b\<close> is \<^verbatim>\<open>a == b\<close>: NaN is not equal to itself.\<close>

definition peq :: "pynum \<Rightarrow> pynum \<Rightarrow> bool" where
  "peq a b = (a = b \<and> a \<noteq> NaN)"

section \<open>Lists and matrices with Python indexing\<close>

text \<open>
  \<^verbatim>\<open>xs[i]\<close>: an index in \<open>[-n, 0)\<close> counts from the end, an index outside
  \<open>[-n, n)\<close> raises \<^verbatim>\<open>IndexError\<close>.
\<close>

definition py_index :: "'a list \<Rightarrow> int \<Rightarrow> error + nat" where
  "py_index xs i =
     (if 0 \<le> i \<and> i < int (length xs) then Inr (nat i)
      else if - int (length xs) \<le> i \<and> i < 0 then Inr (nat (int (length xs) + i))
      else Inl IndexError)"

definition py_get :: "'a list \<Rightarrow> int \<Rightarrow> error + 'a" where
  "py_get xs i = (case py_index xs i of Inl e \<Rightarrow> Inl e | Inr k \<Rightarrow> Inr (xs ! k))"

definition py_set :: "'a list \<Rightarrow> int \<Rightarrow> 'a \<Rightarrow> error + 'a list" where
  "py_set xs i x = (case py_index xs i of Inl e \<Rightarrow> Inl e | Inr k \<Rightarrow> Inr (xs[k := x]))"

text \<open>\<^verbatim>\<open>m[i][j]\<close> and \<^verbatim>\<open>m[i][j] = x\<close> on a list of rows.\<close>

definition mat_get :: "'a list list \<Rightarrow> int \<Rightarrow> int \<Rightarrow> error + 'a" where
  "mat_get m i j = (case py_get m i of Inl e \<Rightarrow> Inl e | Inr row \<Rightarrow> py_get row j)"

definition mat_set :: "'a list list \<Rightarrow> int \<Rightarrow> int \<Rightarrow> 'a \<Rightarrow> error + 'a list list" where
  "mat_set m i j x =
     (case py_index m i of Inl e \<Rightarrow> Inl e
      | Inr k \<Rightarrow> (case py_set (m ! k) j x of Inl e \<Rightarrow> Inl e
                  | Inr row \<Rightarrow> Inr (m[k := row])))"

section \<open>The capacity matrix builder\<close>

text \<open>
  \<^verbatim>\<open>build_capacity_matrix(G, node_indices)\<close>. The graph enters through the sequence
  \<^verbatim>\<open>G.edges(data=True)\<close>, a list of triples (tail, head, weight); the dictionary
  \<^verbatim>\<open>node_indices\<close> is an association list with distinct keys, so that
  \<^verbatim>\<open>len(node_indices)\<close> is its length. A node missing from the dictionary raises
  \<^verbatim>\<open>KeyError\<close>, an index outside the matrix \<^verbatim>\<open>IndexError\<close>. There is no other
  check: whatever weight the edge carries is stored.
\<close>

fun fill_matrix ::
  "('n \<times> int) list \<Rightarrow> ('n \<times> 'n \<times> pynum) list \<Rightarrow> pynum list list \<Rightarrow> error + pynum list list"
where
  "fill_matrix node_indices [] matrix = Inr matrix"
| "fill_matrix node_indices ((u, v, w) # es) matrix =
     (case map_of node_indices u of None \<Rightarrow> Inl KeyError
      | Some i \<Rightarrow>
     (case map_of node_indices v of None \<Rightarrow> Inl KeyError
      | Some j \<Rightarrow>
     (case mat_set matrix i j w of Inl e \<Rightarrow> Inl e
      | Inr matrix' \<Rightarrow> fill_matrix node_indices es matrix')))"

definition build_capacity_matrix ::
  "('n \<times> 'n \<times> pynum) list \<Rightarrow> ('n \<times> int) list \<Rightarrow> error + pynum list list"
where
  "build_capacity_matrix G node_indices =
     (let n = length node_indices
      in fill_matrix node_indices G (replicate n (replicate n (Num 0))))"

section \<open>The augmenting-path search\<close>

text \<open>
  \<^verbatim>\<open>capacity[u][v] - flow[u][v]\<close>, the residual capacity of the pair \<open>(u, v)\<close>.
\<close>

definition residual :: "pynum list list \<Rightarrow> pynum list list \<Rightarrow> int \<Rightarrow> int \<Rightarrow> error + pynum" where
  "residual capacity flow u v =
     (case mat_get capacity u v of Inl e \<Rightarrow> Inl e
      | Inr c \<Rightarrow> (case mat_get flow u v of Inl e \<Rightarrow> Inl e
                  | Inr f \<Rightarrow> py_sub c f))"

text \<open>
  The state of \<^verbatim>\<open>bfs\<close> is \<open>(visited, queue, parent)\<close>. Node indices are natural
  numbers here (the caller takes them from \<^verbatim>\<open>enumerate\<close>); the entries of
  \<^verbatim>\<open>parent\<close> are integers, since the list starts as \<^verbatim>\<open>[-1] * n\<close>.

  \<open>bfs_for\<close> is the loop \<^verbatim>\<open>for v in range(len(capacity))\<close> for one dequeued \<open>u\<close>, over
  the indices still to scan. The condition short-circuits: the residual is not read for
  a visited \<open>v\<close>. The loop returns at once, with \<open>True\<close>, when it discovers the sink.
\<close>

type_synonym bfs_state = "bool list \<times> nat list \<times> int list"

fun bfs_for ::
  "pynum list list \<Rightarrow> pynum list list \<Rightarrow> nat \<Rightarrow> nat \<Rightarrow> nat list \<Rightarrow> bfs_state
     \<Rightarrow> error + (bool \<times> bfs_state)"
where
  "bfs_for capacity flow sink u [] st = Inr (False, st)"
| "bfs_for capacity flow sink u (v # vs) (visited, queue, parent) =
     (case py_get visited (int v) of Inl e \<Rightarrow> Inl e
      | Inr True \<Rightarrow> bfs_for capacity flow sink u vs (visited, queue, parent)
      | Inr False \<Rightarrow>
     (case residual capacity flow (int u) (int v) of Inl e \<Rightarrow> Inl e
      | Inr r \<Rightarrow>
          if pgt0 r then
            (case py_set parent (int v) (int u) of Inl e \<Rightarrow> Inl e
             | Inr parent' \<Rightarrow>
            (case py_set visited (int v) True of Inl e \<Rightarrow> Inl e
             | Inr visited' \<Rightarrow>
                 if v = sink then Inr (True, (visited', queue, parent'))
                 else bfs_for capacity flow sink u vs (visited', queue @ [v], parent')))
          else bfs_for capacity flow sink u vs (visited, queue, parent)))"

text \<open>The number of nodes not yet visited plus those waiting in the queue.\<close>

definition bfs_measure :: "bfs_state \<Rightarrow> nat" where
  "bfs_measure st = (case st of (visited, queue, parent) \<Rightarrow>
     length (filter (\<lambda>b. \<not> b) visited) + length queue)"

lemma py_get_int [simp]:
  "py_get xs (int v) = (if v < length xs then Inr (xs ! v) else Inl IndexError)"
  by (simp add: py_get_def py_index_def)

lemma py_set_int [simp]:
  "py_set xs (int v) x = (if v < length xs then Inr (xs[v := x]) else Inl IndexError)"
  by (simp add: py_set_def py_index_def)

lemma unvisited_mark:
  "v < length visited \<Longrightarrow> \<not> visited ! v \<Longrightarrow>
   Suc (length (filter (\<lambda>b. \<not> b) (visited[v := True]))) = length (filter (\<lambda>b. \<not> b) visited)"
proof (induction visited arbitrary: v)
  case Nil
  then show ?case by simp
next
  case (Cons b bs)
  then show ?case by (cases v) auto
qed

lemma bfs_for_measure:
  "bfs_for capacity flow sink u vs st = Inr (found, st') \<Longrightarrow> \<not> found \<Longrightarrow>
   bfs_measure st' = bfs_measure st"
proof (induction capacity flow sink u vs st rule: bfs_for.induct)
  case (1 capacity flow sink u st)
  then show ?case by simp
next
  case (2 capacity flow sink u v vs visited queue parent)
  show ?case
  proof (cases "v < length visited")
    case False
    with "2.prems" show ?thesis by simp
  next
    case inr: True
    show ?thesis
    proof (cases "visited ! v")
      case True
      with inr "2.prems" "2.IH"(1) show ?thesis by simp
    next
      case unv: False
      show ?thesis
      proof (cases "residual capacity flow (int u) (int v)")
        case (Inl e)
        with inr unv "2.prems" show ?thesis by simp
      next
        case (Inr r)
        show ?thesis
        proof (cases "pgt0 r")
          case False
          with inr unv Inr "2.prems" "2.IH"(3) show ?thesis by simp
        next
          case pos: True
          show ?thesis
          proof (cases "v < length parent \<and> v \<noteq> sink")
            case False
            with inr unv Inr pos "2.prems" show ?thesis by (auto split: if_splits)
          next
            case True
            with inr unv Inr pos "2.prems"
            have run: "bfs_for capacity flow sink u vs
                         (visited[v := True], queue @ [v], parent[v := int u]) = Inr (found, st')"
              by simp
            have "bfs_measure st' =
                    bfs_measure (visited[v := True], queue @ [v], parent[v := int u])"
              using "2.IH"(2) run "2.prems"(2) Inr pos inr unv True by simp
            also have "\<dots> = bfs_measure (visited, queue, parent)"
              using unvisited_mark [OF inr unv] by (simp add: bfs_measure_def)
            finally show ?thesis .
          qed
        qed
      qed
    qed
  qed
qed

text \<open>
  \<open>bfs_while\<close> is the loop \<^verbatim>\<open>while queue\<close>: it dequeues the head, scans all indices
  and goes on with the state the scan leaves, unless the scan found the sink. It returns
  the flag and the list \<^verbatim>\<open>parent\<close> as \<^verbatim>\<open>bfs\<close> leaves it to its caller.
\<close>

function bfs_while ::
  "pynum list list \<Rightarrow> pynum list list \<Rightarrow> nat \<Rightarrow> bfs_state \<Rightarrow> error + (bool \<times> int list)"
where
  "bfs_while capacity flow sink (visited, [], parent) = Inr (False, parent)"
| "bfs_while capacity flow sink (visited, u # queue, parent) =
     (case bfs_for capacity flow sink u [0..<length capacity] (visited, queue, parent) of
        Inl e \<Rightarrow> Inl e
      | Inr (found, st) \<Rightarrow>
          if found then Inr (True, snd (snd st))
          else bfs_while capacity flow sink st)"
  by pat_completeness auto
termination
proof (relation "measure (\<lambda>(capacity, flow, sink, st). bfs_measure st)")
  show "wf (measure (\<lambda>(capacity, flow, sink, st). bfs_measure st))" by simp
next
  fix capacity flow :: "pynum list list" and sink u :: nat and visited :: "bool list"
    and queue :: "nat list" and parent :: "int list" and x2 :: "bool \<times> bfs_state"
    and found :: bool and st :: bfs_state
  assume run: "bfs_for capacity flow sink u [0..<length capacity] (visited, queue, parent) = Inr x2"
    and x2: "(found, st) = x2" and nf: "\<not> found"
  from run x2 have "bfs_for capacity flow sink u [0..<length capacity] (visited, queue, parent)
                      = Inr (found, st)"
    by simp
  from bfs_for_measure [OF this nf]
  have "bfs_measure st = bfs_measure (visited, queue, parent)" .
  then show "((capacity, flow, sink, st), (capacity, flow, sink, visited, u # queue, parent))
               \<in> measure (\<lambda>(capacity, flow, sink, st). bfs_measure st)"
    by (simp add: bfs_measure_def)
qed

text \<open>\<^verbatim>\<open>bfs(capacity, flow, source, sink, parent)\<close>.\<close>

definition bfs ::
  "pynum list list \<Rightarrow> pynum list list \<Rightarrow> nat \<Rightarrow> nat \<Rightarrow> int list \<Rightarrow> error + (bool \<times> int list)"
where
  "bfs capacity flow source sink parent =
     (case py_set (replicate (length capacity) False) (int source) True of
        Inl e \<Rightarrow> Inl e
      | Inr visited \<Rightarrow> bfs_while capacity flow sink (visited, [source], parent))"

section \<open>The max-flow engine\<close>

text \<open>
  The first inner loop of \<^verbatim>\<open>edmonds_karp\<close>:
  \<^verbatim>\<open>while s != source: path_flow = min(path_flow, capacity[parent[s]][s] - flow[parent[s]][s]); s = parent[s]\<close>.
  The cursor \<open>s\<close> is an integer read from \<^verbatim>\<open>parent\<close>. Nothing in the loop bounds
  the number of its iterations, so it is a partial function: \<open>None\<close> is a run that
  never leaves the loop.
\<close>

partial_function (option) walk_min ::
  "pynum list list \<Rightarrow> pynum list list \<Rightarrow> int list \<Rightarrow> int \<Rightarrow> int \<Rightarrow> pynum
     \<Rightarrow> (error + pynum) option"
where
  "walk_min capacity flow parent source s path_flow =
     (if s = source then Some (Inr path_flow)
      else (case py_get parent s of Inl e \<Rightarrow> Some (Inl e)
            | Inr p \<Rightarrow>
           (case residual capacity flow p s of Inl e \<Rightarrow> Some (Inl e)
            | Inr r \<Rightarrow> walk_min capacity flow parent source p (pymin path_flow r))))"

declare walk_min.simps [code]

text \<open>
  The second inner loop:
  \<^verbatim>\<open>while v != source: u = parent[v]; flow[u][v] += path_flow; flow[v][u] -= path_flow; v = parent[v]\<close>.
\<close>

definition push :: "pynum list list \<Rightarrow> int \<Rightarrow> int \<Rightarrow> pynum \<Rightarrow> error + pynum list list" where
  "push flow u v path_flow =
     (case mat_get flow u v of Inl e \<Rightarrow> Inl e
      | Inr x \<Rightarrow>
     (case py_add x path_flow of Inl e \<Rightarrow> Inl e
      | Inr x' \<Rightarrow>
     (case mat_set flow u v x' of Inl e \<Rightarrow> Inl e
      | Inr flow1 \<Rightarrow>
     (case mat_get flow1 v u of Inl e \<Rightarrow> Inl e
      | Inr y \<Rightarrow>
     (case py_sub y path_flow of Inl e \<Rightarrow> Inl e
      | Inr y' \<Rightarrow> mat_set flow1 v u y')))))"

partial_function (option) walk_push ::
  "pynum list list \<Rightarrow> int list \<Rightarrow> int \<Rightarrow> int \<Rightarrow> pynum \<Rightarrow> (error + pynum list list) option"
where
  "walk_push flow parent source v path_flow =
     (if v = source then Some (Inr flow)
      else (case py_get parent v of Inl e \<Rightarrow> Some (Inl e)
            | Inr u \<Rightarrow>
           (case push flow u v path_flow of Inl e \<Rightarrow> Some (Inl e)
            | Inr flow' \<Rightarrow> walk_push flow' parent source u path_flow)))"

declare walk_push.simps [code]

text \<open>
  One iteration of the outer loop \<^verbatim>\<open>while bfs(capacity, flow, source, sink, parent)\<close>
  on the state \<open>(flow, parent, max_flow)\<close>: \<open>Inr None\<close> when the search finds no path
  and the loop ends, \<open>Inr (Some st)\<close> with the state after the augmentation otherwise.
\<close>

type_synonym ek_state = "pynum list list \<times> int list \<times> pynum"

definition ek_step ::
  "pynum list list \<Rightarrow> nat \<Rightarrow> nat \<Rightarrow> ek_state \<Rightarrow> (error + ek_state option) option"
where
  "ek_step capacity source sink st = (case st of (flow, parent, max_flow) \<Rightarrow>
     (case bfs capacity flow source sink parent of Inl e \<Rightarrow> Some (Inl e)
      | Inr (found, parent') \<Rightarrow>
          if \<not> found then Some (Inr None)
          else
            (case walk_min capacity flow parent' (int source) (int sink) PInf of
               None \<Rightarrow> None
             | Some (Inl e) \<Rightarrow> Some (Inl e)
             | Some (Inr path_flow) \<Rightarrow>
            (case walk_push flow parent' (int source) (int sink) path_flow of
               None \<Rightarrow> None
             | Some (Inl e) \<Rightarrow> Some (Inl e)
             | Some (Inr flow') \<Rightarrow>
            (case py_add max_flow path_flow of
               Inl e \<Rightarrow> Some (Inl e)
             | Inr max_flow' \<Rightarrow> Some (Inr (Some (flow', parent', max_flow'))))))))"

text \<open>
  The outer loop. It ends when the search fails, and returns \<^verbatim>\<open>(max_flow, flow)\<close>.
\<close>

partial_function (option) ek_loop ::
  "pynum list list \<Rightarrow> nat \<Rightarrow> nat \<Rightarrow> ek_state \<Rightarrow> (error + (pynum \<times> pynum list list)) option"
where
  "ek_loop capacity source sink st =
     (case ek_step capacity source sink st of
        None \<Rightarrow> None
      | Some (Inl e) \<Rightarrow> Some (Inl e)
      | Some (Inr None) \<Rightarrow> Some (Inr (snd (snd st), fst st))
      | Some (Inr (Some st')) \<Rightarrow> ek_loop capacity source sink st')"

declare ek_loop.simps [code]

definition ek_init :: "pynum list list \<Rightarrow> ek_state" where
  "ek_init capacity =
     (let n = length capacity
      in (replicate n (replicate n (Num 0)), replicate n (- 1), Num 0))"

text \<open>\<^verbatim>\<open>edmonds_karp(capacity, source, sink)\<close>.\<close>

definition edmonds_karp ::
  "pynum list list \<Rightarrow> nat \<Rightarrow> nat \<Rightarrow> (error + (pynum \<times> pynum list list)) option"
where
  "edmonds_karp capacity source sink = ek_loop capacity source sink (ek_init capacity)"

text \<open>
  The states the outer loop goes through: \<open>ek_after k st\<close> holds when \<open>st\<close> is the
  state after \<open>k\<close> augmentations, the initial state being the one after none.
\<close>

inductive ek_after :: "pynum list list \<Rightarrow> nat \<Rightarrow> nat \<Rightarrow> nat \<Rightarrow> ek_state \<Rightarrow> bool"
  for capacity :: "pynum list list" and source :: nat and sink :: nat
where
  ek_after_init: "ek_after capacity source sink 0 (ek_init capacity)"
| ek_after_step:
    "ek_after capacity source sink k st \<Longrightarrow>
     ek_step capacity source sink st = Some (Inr (Some st')) \<Longrightarrow>
     ek_after capacity source sink (Suc k) st'"

section \<open>The flow table\<close>

text \<open>
  \<^verbatim>\<open>print_flow_table(flow, node_indices, terminals, warehouses, store_range)\<close>. The
  function prints one line per (terminal, store) pair whose total is positive; the model
  returns the printed lines as triples (terminal, store, total), in the order they are
  printed. The name of a store is the f-string of line 123, a parameter \<open>store_name\<close>
  here. The innermost condition short-circuits, so \<^verbatim>\<open>flow[term_idx][warehouse_idx]\<close>
  is read only when \<^verbatim>\<open>flow[warehouse_idx][store_idx] > 0\<close>.
\<close>

fun warehouse_loop ::
  "pynum list list \<Rightarrow> ('n \<times> int) list \<Rightarrow> int \<Rightarrow> int \<Rightarrow> 'n list \<Rightarrow> pynum \<Rightarrow> error + pynum"
where
  "warehouse_loop flow node_indices term_idx store_idx [] total_flow = Inr total_flow"
| "warehouse_loop flow node_indices term_idx store_idx (warehouse # ws) total_flow =
     (case map_of node_indices warehouse of None \<Rightarrow> Inl KeyError
      | Some warehouse_idx \<Rightarrow>
     (case mat_get flow warehouse_idx store_idx of Inl e \<Rightarrow> Inl e
      | Inr a \<Rightarrow>
          if pgt0 a then
            (case mat_get flow term_idx warehouse_idx of Inl e \<Rightarrow> Inl e
             | Inr b \<Rightarrow>
                 if pgt0 b
                 then (case py_add total_flow (pymin a b) of Inl e \<Rightarrow> Inl e
                       | Inr total_flow' \<Rightarrow>
                           warehouse_loop flow node_indices term_idx store_idx ws total_flow')
                 else warehouse_loop flow node_indices term_idx store_idx ws total_flow)
          else warehouse_loop flow node_indices term_idx store_idx ws total_flow))"

fun store_loop ::
  "(int \<Rightarrow> 'n) \<Rightarrow> pynum list list \<Rightarrow> ('n \<times> int) list \<Rightarrow> 'n \<Rightarrow> int \<Rightarrow> 'n list \<Rightarrow> int list
     \<Rightarrow> error + ('n \<times> 'n \<times> pynum) list"
where
  "store_loop store_name flow node_indices term term_idx warehouses [] = Inr []"
| "store_loop store_name flow node_indices term term_idx warehouses (store_num # nums) =
     (case map_of node_indices (store_name store_num) of None \<Rightarrow> Inl KeyError
      | Some store_idx \<Rightarrow>
     (case warehouse_loop flow node_indices term_idx store_idx warehouses (Num 0) of
        Inl e \<Rightarrow> Inl e
      | Inr total_flow \<Rightarrow>
     (case store_loop store_name flow node_indices term term_idx warehouses nums of
        Inl e \<Rightarrow> Inl e
      | Inr rows \<Rightarrow>
          Inr ((if pgt0 total_flow then [(term, store_name store_num, total_flow)] else [])
               @ rows))))"

fun print_flow_table ::
  "(int \<Rightarrow> 'n) \<Rightarrow> pynum list list \<Rightarrow> ('n \<times> int) list \<Rightarrow> 'n list \<Rightarrow> 'n list \<Rightarrow> int list
     \<Rightarrow> error + ('n \<times> 'n \<times> pynum) list"
where
  "print_flow_table store_name flow node_indices [] warehouses store_range = Inr []"
| "print_flow_table store_name flow node_indices (term # terms) warehouses store_range =
     (case map_of node_indices term of None \<Rightarrow> Inl KeyError
      | Some term_idx \<Rightarrow>
     (case store_loop store_name flow node_indices term term_idx warehouses store_range of
        Inl e \<Rightarrow> Inl e
      | Inr rows \<Rightarrow>
     (case print_flow_table store_name flow node_indices terms warehouses store_range of
        Inl e \<Rightarrow> Inl e
      | Inr rows' \<Rightarrow> Inr (rows @ rows'))))"

section \<open>Shapes, residual edges and the attribution of the specification\<close>

text \<open>
  An \<open>n \<times> n\<close> matrix, and the residual edges of the search: the pairs of valid
  indices whose residual capacity is positive.
\<close>

definition square :: "nat \<Rightarrow> 'a list list \<Rightarrow> bool" where
  "square n m \<longleftrightarrow> length m = n \<and> (\<forall>row \<in> set m. length row = n)"

definition res_edge :: "pynum list list \<Rightarrow> pynum list list \<Rightarrow> nat \<Rightarrow> nat \<Rightarrow> bool" where
  "res_edge capacity flow u v \<longleftrightarrow>
     u < length capacity \<and> v < length capacity \<and>
     pgt0 (ext_sub (capacity ! u ! v) (flow ! u ! v))"

text \<open>
  Every residual capacity \<^verbatim>\<open>capacity[u][v] - flow[u][v]\<close> can be computed: no
  subtraction raises \<^verbatim>\<open>OverflowError\<close>.
\<close>

definition res_defined :: "pynum list list \<Rightarrow> pynum list list \<Rightarrow> bool" where
  "res_defined capacity flow \<longleftrightarrow>
     (\<forall>u<length capacity. \<forall>v<length capacity. arith_ok (capacity ! u ! v) (flow ! u ! v))"

text \<open>
  What the specification says of the flow decomposer: a node name resolves to an index of
  the matrix; the flow attributed to an (entry, exit) pair is the sum, over the
  intermediate nodes, of \<open>min(flow[entry][intermediate], flow[intermediate][exit])\<close>,
  restricted to the strictly positive contributions; the output holds the pairs with a
  strictly positive attributed flow.
\<close>

definition resolves :: "('n \<times> int) list \<Rightarrow> nat \<Rightarrow> 'n \<Rightarrow> bool" where
  "resolves node_indices n x \<longleftrightarrow> (\<exists>i<n. map_of node_indices x = Some (int i))"

definition index_of :: "('n \<times> int) list \<Rightarrow> 'n \<Rightarrow> nat" where
  "index_of node_indices x = (case map_of node_indices x of Some i \<Rightarrow> nat i | None \<Rightarrow> 0)"

definition attributed :: "pynum list list \<Rightarrow> nat \<Rightarrow> nat list \<Rightarrow> nat \<Rightarrow> pynum" where
  "attributed flow entry intermediates exit =
     foldl ext_add (Num 0)
       (filter pgt0 (map (\<lambda>w. pymin (flow ! entry ! w) (flow ! w ! exit)) intermediates))"

definition attribution_table ::
  "(int \<Rightarrow> 'n) \<Rightarrow> pynum list list \<Rightarrow> ('n \<times> int) list \<Rightarrow> 'n list \<Rightarrow> 'n list \<Rightarrow> int list
     \<Rightarrow> ('n \<times> 'n \<times> pynum) list"
where
  "attribution_table store_name flow node_indices terminals warehouses store_range =
     concat (map (\<lambda>term. concat (map (\<lambda>k.
       (let a = attributed flow (index_of node_indices term)
                  (map (index_of node_indices) warehouses)
                  (index_of node_indices (store_name k))
        in if pgt0 a then [(term, store_name k, a)] else [])) store_range)) terminals)"

section \<open>The search tree and the invariant of the search\<close>

text \<open>
  The predecessors recorded in \<^verbatim>\<open>parent\<close> trace a list of nodes: each node of the
  list is followed by its recorded predecessor.
\<close>

fun parent_chain :: "int list \<Rightarrow> nat list \<Rightarrow> bool" where
  "parent_chain parent [] = False"
| "parent_chain parent [v] = True"
| "parent_chain parent (v # u # ws) = (parent ! v = int u \<and> parent_chain parent (u # ws))"

text \<open>
  The search tree: every visited node other than the source has a visited predecessor
  from which a residual edge leads to it, one level below it. \<open>d\<close> is the level at
  which the search discovers a node.
\<close>

definition tree_inv ::
  "pynum list list \<Rightarrow> pynum list list \<Rightarrow> nat \<Rightarrow> (nat \<Rightarrow> nat) \<Rightarrow> bool list \<Rightarrow> int list \<Rightarrow> bool"
where
  "tree_inv capacity flow source d visited parent \<longleftrightarrow>
     length visited = length capacity \<and> length parent = length capacity \<and>
     source < length capacity \<and> visited ! source \<and> d source = 0 \<and>
     (\<forall>v<length capacity. visited ! v \<and> v \<noteq> source \<longrightarrow>
        (\<exists>p<length capacity. parent ! v = int p \<and> visited ! p \<and>
           res_edge capacity flow p v \<and> d v = Suc (d p)))"

text \<open>
  The invariant of \<^verbatim>\<open>while queue\<close>: the queue holds visited nodes in the order of
  their levels, no visited node lies more than one level beyond a queued one, and every
  node that has left the queue has all its residual successors visited.
\<close>

definition bfs_inv ::
  "pynum list list \<Rightarrow> pynum list list \<Rightarrow> nat \<Rightarrow> nat \<Rightarrow> (nat \<Rightarrow> nat) \<Rightarrow> bfs_state \<Rightarrow> bool"
where
  "bfs_inv capacity flow source sink d st \<longleftrightarrow> (case st of (visited, queue, parent) \<Rightarrow>
     tree_inv capacity flow source d visited parent \<and>
     (sink < length capacity \<longrightarrow> \<not> visited ! sink) \<and>
     (\<forall>x \<in> set queue. x < length capacity \<and> visited ! x) \<and>
     sorted (map d queue) \<and>
     (\<forall>v<length capacity. visited ! v \<longrightarrow> (\<forall>x \<in> set queue. d v \<le> Suc (d x))) \<and>
     (\<forall>x<length capacity. visited ! x \<and> x \<notin> set queue \<longrightarrow>
        (\<forall>y. res_edge capacity flow x y \<longrightarrow> visited ! y \<and> d y \<le> Suc (d x))) \<and>
     (\<forall>x<length capacity. visited ! x \<and> x \<notin> set queue \<longrightarrow>
        (\<forall>z \<in> set queue. d x \<le> d z)))"

text \<open>A path of residual edges, as the list of its nodes.\<close>

definition res_path :: "pynum list list \<Rightarrow> pynum list list \<Rightarrow> nat list \<Rightarrow> bool" where
  "res_path capacity flow ps \<longleftrightarrow> ps \<noteq> [] \<and> successively (res_edge capacity flow) ps"

text \<open>
  What a successful search leaves: a search tree that reaches the sink at a level no path
  of residual edges can beat. What a failed search proves: a set of nodes that holds the
  source, not the sink, and is closed under residual edges.
\<close>

definition bfs_found ::
  "pynum list list \<Rightarrow> pynum list list \<Rightarrow> nat \<Rightarrow> nat \<Rightarrow> int list \<Rightarrow> bool"
where
  "bfs_found capacity flow source sink parent \<longleftrightarrow>
     (\<exists>d visited. tree_inv capacity flow source d visited parent \<and>
        sink < length capacity \<and> visited ! sink \<and>
        (\<forall>ps. res_path capacity flow ps \<and> hd ps = source \<and> last ps = sink \<longrightarrow>
           Suc (d sink) \<le> length ps))"

definition bfs_closed :: "pynum list list \<Rightarrow> pynum list list \<Rightarrow> nat \<Rightarrow> nat \<Rightarrow> bool" where
  "bfs_closed capacity flow source sink \<longleftrightarrow>
     (\<exists>S. S \<subseteq> {..<length capacity} \<and> source \<in> S \<and> sink \<notin> S \<and>
        (\<forall>x \<in> S. \<forall>y. res_edge capacity flow x y \<longrightarrow> y \<in> S))"

text \<open>
  The breadth-first order of the tree recorded in \<^verbatim>\<open>parent\<close>: the source comes before
  every other node; of two nodes with the same predecessor the one of smaller index comes
  first, since a row is scanned by increasing index; otherwise the order of the
  predecessors decides, since the queue is first in, first out.
\<close>

inductive before :: "int list \<Rightarrow> nat \<Rightarrow> nat \<Rightarrow> nat \<Rightarrow> bool"
  for parent :: "int list" and source :: nat
where
  before_source: "w \<noteq> source \<Longrightarrow> before parent source source w"
| before_sibling: "v \<noteq> source \<Longrightarrow> w \<noteq> source \<Longrightarrow> parent ! v = parent ! w \<Longrightarrow> v < w \<Longrightarrow>
     before parent source v w"
| before_parent: "v \<noteq> source \<Longrightarrow> w \<noteq> source \<Longrightarrow> parent ! v = int p \<Longrightarrow> parent ! w = int q \<Longrightarrow>
     before parent source p q \<Longrightarrow> before parent source v w"

text \<open>
  The invariant of \<^verbatim>\<open>while queue\<close> that orders the discoveries: \<open>r\<close> numbers the
  visited nodes in the order of their discovery. The entries of unvisited nodes are those
  of the list the search was given, the queue is in the order of discovery, and the
  recorded predecessor of a visited node has left the queue before every queued node.
\<close>

definition order_inv :: "nat \<Rightarrow> int list \<Rightarrow> nat \<Rightarrow> (nat \<Rightarrow> nat) \<Rightarrow> bfs_state \<Rightarrow> bool" where
  "order_inv n parent0 source r st \<longleftrightarrow> (case st of (visited, queue, parent) \<Rightarrow>
     length visited = n \<and> length parent = n \<and> source < n \<and> visited ! source \<and>
     (\<forall>v<n. \<not> visited ! v \<longrightarrow> parent ! v = parent0 ! v) \<and>
     (\<forall>v<n. \<forall>w<n. visited ! v \<and> visited ! w \<and> r v < r w \<longrightarrow> before parent source v w) \<and>
     sorted_wrt (\<lambda>x y. r x < r y) queue \<and>
     (\<forall>x \<in> set queue. x < n \<and> visited ! x) \<and>
     (\<forall>v<n. visited ! v \<and> v \<noteq> source \<longrightarrow>
        (\<exists>p<n. parent ! v = int p \<and> visited ! p \<and> p \<notin> set queue \<and>
           (\<forall>x \<in> set queue. r p < r x))))"

section \<open>Networks, flows and the invariant of the engine\<close>

text \<open>
  The two updates of one step of the second inner loop, and the whole loop along a list
  of nodes that starts at the sink and follows the predecessors: what the walks compute
  when every index is valid. \<open>path_residuals\<close> lists the residual capacities that the
  first inner loop meets on the same list.
\<close>

definition push_edge :: "pynum list list \<Rightarrow> nat \<Rightarrow> nat \<Rightarrow> pynum \<Rightarrow> pynum list list" where
  "push_edge flow u v b =
     (let flow1 = flow[u := (flow ! u)[v := ext_add (flow ! u ! v) b]]
      in flow1[v := (flow1 ! v)[u := ext_sub (flow1 ! v ! u) b]])"

fun push_path :: "pynum list list \<Rightarrow> nat list \<Rightarrow> pynum \<Rightarrow> pynum list list" where
  "push_path flow (v # u # ws) b = push_path (push_edge flow u v b) (u # ws) b"
| "push_path flow ws b = flow"

definition path_residuals :: "pynum list list \<Rightarrow> pynum list list \<Rightarrow> nat list \<Rightarrow> pynum list" where
  "path_residuals capacity flow ws =
     map (\<lambda>(v, u). ext_sub (capacity ! u ! v) (flow ! u ! v)) (zip ws (tl ws))"

text \<open>
  A flow matrix whose entries are all integers, the integer at a pair, and the net flow
  out of a node (the sum of its row).
\<close>

definition fl :: "pynum list list \<Rightarrow> nat \<Rightarrow> nat \<Rightarrow> int" where
  "fl flow i j = (case flow ! i ! j of Num x \<Rightarrow> x | _ \<Rightarrow> 0)"

definition all_num :: "nat \<Rightarrow> pynum list list \<Rightarrow> bool" where
  "all_num n flow \<longleftrightarrow> square n flow \<and> (\<forall>i<n. \<forall>j<n. \<exists>x. flow ! i ! j = Num x)"

definition out_flow :: "nat \<Rightarrow> pynum list list \<Rightarrow> nat \<Rightarrow> int" where
  "out_flow n flow i = (\<Sum>j<n. fl flow i j)"

text \<open>
  An unbounded edge, the finite part of a capacity, and the sum of the positive finite
  capacities of a matrix: no flow that the engine builds exceeds it.
\<close>

definition inf_edge :: "pynum list list \<Rightarrow> nat \<Rightarrow> nat \<Rightarrow> bool" where
  "inf_edge capacity u v \<longleftrightarrow>
     u < length capacity \<and> v < length capacity \<and> capacity ! u ! v = PInf"

definition capnum :: "pynum list list \<Rightarrow> nat \<Rightarrow> nat \<Rightarrow> int" where
  "capnum capacity i j = (case capacity ! i ! j of Num k \<Rightarrow> k | _ \<Rightarrow> 0)"

definition total_cap :: "pynum list list \<Rightarrow> int" where
  "total_cap capacity =
     (\<Sum>i<length capacity. \<Sum>j<length capacity. max 0 (capnum capacity i j))"

text \<open>
  The networks on which the engine augments without leaving the integers: a square
  matrix, valid and distinct source and sink, every entry an integer (of either sign) or
  the unbounded sentinel, no path from the source to the sink that runs over unbounded
  edges only, and, when the matrix has an unbounded edge, positive finite capacities whose
  sum a double can hold (so that no subtraction from \<^verbatim>\<open>float('inf')\<close> overflows).
\<close>

definition ek_network :: "pynum list list \<Rightarrow> nat \<Rightarrow> nat \<Rightarrow> bool" where
  "ek_network capacity source sink \<longleftrightarrow>
     square (length capacity) capacity \<and>
     source < length capacity \<and> sink < length capacity \<and> source \<noteq> sink \<and>
     (\<forall>i<length capacity. \<forall>j<length capacity.
        capacity ! i ! j = PInf \<or> (\<exists>k. capacity ! i ! j = Num k)) \<and>
     \<not> (inf_edge capacity)\<^sup>*\<^sup>* source sink \<and>
     ((\<exists>i<length capacity. \<exists>j<length capacity. capacity ! i ! j = PInf) \<longrightarrow>
        total_cap capacity < dbl_limit)"

text \<open>
  The inputs on which the engine returns an integer flow: a square matrix and a valid
  source, with either a sink that no search can find (the source itself, or an index
  beyond the matrix) or a network as above.
\<close>

definition ek_domain :: "pynum list list \<Rightarrow> nat \<Rightarrow> nat \<Rightarrow> bool" where
  "ek_domain capacity source sink \<longleftrightarrow>
     square (length capacity) capacity \<and> source < length capacity \<and>
     (sink = source \<or> length capacity \<le> sink \<or> ek_network capacity source sink)"

text \<open>Capacities as the specification has them: no finite capacity is negative.\<close>

definition nonneg_caps :: "pynum list list \<Rightarrow> bool" where
  "nonneg_caps capacity \<longleftrightarrow>
     (\<forall>i<length capacity. \<forall>j<length capacity.
        capacity ! i ! j = PInf \<or> (\<exists>k\<ge>0. capacity ! i ! j = Num k))"

text \<open>
  The invariant of the outer loop: the flow is an integer matrix, skew-symmetric, within
  the finite capacities (within 0 where the capacity is negative), conserved at every node
  but the source and the sink, no entry exceeds the value of the flow in magnitude, and
  \<^verbatim>\<open>max_flow\<close> is the net flow out of the source.
\<close>

definition ek_inv :: "pynum list list \<Rightarrow> nat \<Rightarrow> nat \<Rightarrow> ek_state \<Rightarrow> bool" where
  "ek_inv capacity source sink st \<longleftrightarrow> (case st of (flow, parent, max_flow) \<Rightarrow>
     all_num (length capacity) flow \<and> length parent = length capacity \<and>
     max_flow = Num (out_flow (length capacity) flow source) \<and>
     (\<forall>i<length capacity. \<forall>j<length capacity. fl flow i j = - fl flow j i) \<and>
     (\<forall>i<length capacity. \<forall>j<length capacity. \<forall>k.
        capacity ! i ! j = Num k \<longrightarrow> fl flow i j \<le> max 0 k) \<and>
     (\<forall>i<length capacity. \<forall>j<length capacity.
        \<bar>fl flow i j\<bar> \<le> out_flow (length capacity) flow source) \<and>
     (\<forall>i<length capacity. i \<noteq> source \<and> i \<noteq> sink \<longrightarrow>
        out_flow (length capacity) flow i = 0))"

text \<open>
  A residual capacity on an augmenting path: positive, finite or not. The nodes that
  unbounded edges reach from the source: the source's side of a cut whose capacity is
  finite.
\<close>

definition pos_res :: "pynum \<Rightarrow> bool" where
  "pos_res r \<longleftrightarrow> r = PInf \<or> (\<exists>k>0. r = Num k)"

definition inf_side :: "pynum list list \<Rightarrow> nat \<Rightarrow> nat set" where
  "inf_side capacity source = {v. v < length capacity \<and> (inf_edge capacity)\<^sup>*\<^sup>* source v}"

section \<open>Comparisons, sums and cuts\<close>

text \<open>\<open>ple a b\<close> is \<^verbatim>\<open>a <= b\<close>.\<close>

definition ple :: "pynum \<Rightarrow> pynum \<Rightarrow> bool" where
  "ple a b \<longleftrightarrow> plt a b \<or> peq a b"

text \<open>
  \<open>psum xs\<close> is the sum of a list, added up from the left, starting at 0, with the
  values of \<open>ext_add\<close>: what \<^verbatim>\<open>sum(xs)\<close> returns whenever none of its additions
  overflows.
\<close>

definition psum :: "pynum list \<Rightarrow> pynum" where
  "psum xs = foldl ext_add (Num 0) xs"

text \<open>
  The layout that \<^verbatim>\<open>add_super_source_sink\<close> produces: an unbounded edge leaves the
  source or enters the sink, the source has no unbounded edge to the sink, and no node
  has both an unbounded edge from the source and one to the sink.
\<close>

definition virtual_terminal :: "pynum list list \<Rightarrow> nat \<Rightarrow> nat \<Rightarrow> bool" where
  "virtual_terminal capacity source sink \<longleftrightarrow>
     (\<forall>i<length capacity. \<forall>j<length capacity. capacity ! i ! j = PInf \<longrightarrow>
        (i = source \<and> j \<noteq> sink \<and> capacity ! j ! sink \<noteq> PInf) \<or>
        (j = sink \<and> i \<noteq> source \<and> capacity ! source ! i \<noteq> PInf))"



section \<open>Proofs\<close>

subsection \<open>The search on well-shaped inputs\<close>

lemma mat_get_int:
  "square n m \<Longrightarrow> u < n \<Longrightarrow> v < n \<Longrightarrow> mat_get m (int u) (int v) = Inr (m ! u ! v)"
  by (simp add: mat_get_def square_def)

lemma dbl_limit_pos: "0 < dbl_limit"
proof -
  have "(2::int) ^ 970 < 2 ^ 1024" by (rule power_strict_increasing) simp_all
  then show ?thesis unfolding dbl_limit_def by linarith
qed

lemma float_ok_0: "float_ok 0"
  using dbl_limit_pos by (simp add: float_ok_def)

lemma float_ok_abs: "\<bar>x\<bar> < dbl_limit \<Longrightarrow> float_ok x"
  by (simp add: float_ok_def) linarith

lemma arith_ok_0: "arith_ok c (Num 0)"
  by (cases c) (simp_all add: float_ok_0)

lemma py_add_num: "py_add (Num a) (Num b) = Inr (Num (a + b))"
  by (simp add: py_add_def)

lemma py_sub_num: "py_sub (Num a) (Num b) = Inr (Num (a - b))"
  by (simp add: py_sub_def ext_sub_def)

lemma res_defined_nth:
  "res_defined capacity flow \<Longrightarrow> u < length capacity \<Longrightarrow> v < length capacity \<Longrightarrow>
   arith_ok (capacity ! u ! v) (flow ! u ! v)"
  by (simp add: res_defined_def)

lemma residual_int:
  "square n capacity \<Longrightarrow> square n flow \<Longrightarrow> u < n \<Longrightarrow> v < n \<Longrightarrow>
   arith_ok (capacity ! u ! v) (flow ! u ! v) \<Longrightarrow>
   residual capacity flow (int u) (int v) = Inr (ext_sub (capacity ! u ! v) (flow ! u ! v))"
  by (simp add: residual_def mat_get_int py_sub_def)

lemma bfs_for_Cons:
  assumes "square n capacity" "square n flow" "u < n" "v < n"
    and "length visited = n" "length parent = n"
    and ok: "arith_ok (capacity ! u ! v) (flow ! u ! v)"
  shows "bfs_for capacity flow sink u (v # vs) (visited, queue, parent) =
     (if \<not> visited ! v \<and> res_edge capacity flow u v
      then (if v = sink then Inr (True, (visited[v := True], queue, parent[v := int u]))
            else bfs_for capacity flow sink u vs
                   (visited[v := True], queue @ [v], parent[v := int u]))
      else bfs_for capacity flow sink u vs (visited, queue, parent))"
proof -
  have len: "length capacity = n" using assms(1) by (simp add: square_def)
  show ?thesis
    using assms(3-6) len
    by (cases "visited ! v") (simp_all add: residual_int [OF assms(1,2,3,4) ok] res_edge_def)
qed

lemma bfs_for_spec:
  assumes sq: "square n capacity" "square n flow" and u: "u < n"
    and ok: "\<And>v. v < n \<Longrightarrow> arith_ok (capacity ! u ! v) (flow ! u ! v)"
  shows "length visited = n \<Longrightarrow> length parent = n \<Longrightarrow> set vs \<subseteq> {..<n} \<Longrightarrow> distinct vs \<Longrightarrow>
    \<exists>found visited' queue' parent'.
      bfs_for capacity flow sink u vs (visited, queue, parent)
        = Inr (found, (visited', queue', parent')) \<and>
      length visited' = n \<and> length parent' = n \<and>
      (\<forall>w<n. visited ! w \<longrightarrow> visited' ! w \<and> parent' ! w = parent ! w) \<and>
      (found \<longrightarrow> sink < n \<and> \<not> visited ! sink \<and> res_edge capacity flow u sink \<and>
                 visited' ! sink \<and> parent' ! sink = int u \<and>
                 (\<exists>vs1 vs2. vs = vs1 @ sink # vs2 \<and>
                    (\<forall>w<n. w \<noteq> sink \<longrightarrow> parent' ! w =
                       (if w \<in> set vs1 \<and> \<not> visited ! w \<and> res_edge capacity flow u w
                        then int u else parent ! w)))) \<and>
      (\<not> found \<longrightarrow>
         sink \<notin> set (filter (\<lambda>v. \<not> visited ! v \<and> res_edge capacity flow u v) vs) \<and>
         queue' = queue @ filter (\<lambda>v. \<not> visited ! v \<and> res_edge capacity flow u v) vs \<and>
         (\<forall>w<n. visited' ! w =
            (visited ! w \<or> w \<in> set (filter (\<lambda>v. \<not> visited ! v \<and> res_edge capacity flow u v) vs))) \<and>
         (\<forall>w<n. parent' ! w =
            (if w \<in> set (filter (\<lambda>v. \<not> visited ! v \<and> res_edge capacity flow u v) vs)
             then int u else parent ! w)))"
proof (induction vs arbitrary: visited queue parent)
  case Nil
  then show ?case by auto
next
  case (Cons v vs)
  let ?new = "\<lambda>vis v. \<not> vis ! v \<and> res_edge capacity flow u v"
  from Cons.prems have v: "v < n" and vs: "set vs \<subseteq> {..<n}" "distinct vs" and vnotin: "v \<notin> set vs"
    by auto
  note eq = bfs_for_Cons [OF sq u v Cons.prems(1,2) ok [OF v], of sink vs queue]
  show ?case
  proof (cases "?new visited v")
    case False
    from Cons.IH [OF Cons.prems(1,2) vs, of queue]
    obtain found visited' queue' parent' where
      run: "bfs_for capacity flow sink u vs (visited, queue, parent)
                = Inr (found, (visited', queue', parent'))"
      and l: "length visited' = n" "length parent' = n"
      and keep: "\<forall>w<n. visited ! w \<longrightarrow> visited' ! w \<and> parent' ! w = parent ! w"
      and f: "found \<longrightarrow> sink < n \<and> \<not> visited ! sink \<and> res_edge capacity flow u sink \<and>
                 visited' ! sink \<and> parent' ! sink = int u \<and>
                 (\<exists>vs1 vs2. vs = vs1 @ sink # vs2 \<and>
                    (\<forall>w<n. w \<noteq> sink \<longrightarrow> parent' ! w =
                       (if w \<in> set vs1 \<and> ?new visited w then int u else parent ! w)))"
      and nf: "\<not> found \<longrightarrow>
           sink \<notin> set (filter (?new visited) vs) \<and>
           queue' = queue @ filter (?new visited) vs \<and>
           (\<forall>w<n. visited' ! w = (visited ! w \<or> w \<in> set (filter (?new visited) vs))) \<and>
           (\<forall>w<n. parent' ! w = (if w \<in> set (filter (?new visited) vs) then int u else parent ! w))"
      by blast
    have run': "bfs_for capacity flow sink u (v # vs) (visited, queue, parent)
                = Inr (found, (visited', queue', parent'))"
      using eq False run by simp
    have f': "found \<longrightarrow> sink < n \<and> \<not> visited ! sink \<and> res_edge capacity flow u sink \<and>
                 visited' ! sink \<and> parent' ! sink = int u \<and>
                 (\<exists>vs1 vs2. v # vs = vs1 @ sink # vs2 \<and>
                    (\<forall>w<n. w \<noteq> sink \<longrightarrow> parent' ! w =
                       (if w \<in> set vs1 \<and> ?new visited w then int u else parent ! w)))"
    proof
      assume found
      with f obtain vs1 vs2 where
        b: "sink < n \<and> \<not> visited ! sink \<and> res_edge capacity flow u sink \<and>
                 visited' ! sink \<and> parent' ! sink = int u"
        and sp: "vs = vs1 @ sink # vs2"
        and P: "\<forall>w<n. w \<noteq> sink \<longrightarrow> parent' ! w =
                       (if w \<in> set vs1 \<and> ?new visited w then int u else parent ! w)"
        by blast
      have "v # vs = (v # vs1) @ sink # vs2" using sp by simp
      moreover have "\<forall>w<n. w \<noteq> sink \<longrightarrow> parent' ! w =
          (if w \<in> set (v # vs1) \<and> ?new visited w then int u else parent ! w)"
        using P False by auto
      ultimately show "sink < n \<and> \<not> visited ! sink \<and> res_edge capacity flow u sink \<and>
                 visited' ! sink \<and> parent' ! sink = int u \<and>
                 (\<exists>vs1 vs2. v # vs = vs1 @ sink # vs2 \<and>
                    (\<forall>w<n. w \<noteq> sink \<longrightarrow> parent' ! w =
                       (if w \<in> set vs1 \<and> ?new visited w then int u else parent ! w)))"
        using b by blast
    qed
    have nf': "\<not> found \<longrightarrow>
           sink \<notin> set (filter (?new visited) (v # vs)) \<and>
           queue' = queue @ filter (?new visited) (v # vs) \<and>
           (\<forall>w<n. visited' ! w = (visited ! w \<or> w \<in> set (filter (?new visited) (v # vs)))) \<and>
           (\<forall>w<n. parent' ! w = (if w \<in> set (filter (?new visited) (v # vs)) then int u else parent ! w))"
      using nf False by auto
    from run' l keep f' nf' show ?thesis by blast
  next
    case new: True
    show ?thesis
    proof (cases "v = sink")
      case True
      have run': "bfs_for capacity flow sink u (v # vs) (visited, queue, parent)
                = Inr (True, (visited[v := True], queue, parent[v := int u]))"
        using eq new True by simp
      have "v # vs = [] @ sink # vs" using True by simp
      moreover have "\<forall>w<n. w \<noteq> sink \<longrightarrow> parent[v := int u] ! w =
          (if w \<in> set [] \<and> ?new visited w then int u else parent ! w)"
        using True by simp
      ultimately have sp: "\<exists>vs1 vs2. v # vs = vs1 @ sink # vs2 \<and>
          (\<forall>w<n. w \<noteq> sink \<longrightarrow> parent[v := int u] ! w =
             (if w \<in> set vs1 \<and> ?new visited w then int u else parent ! w))"
        by blast
      have basics: "length (visited[v := True]) = n" "length (parent[v := int u]) = n"
        "\<forall>w<n. visited ! w \<longrightarrow> visited[v := True] ! w \<and> parent[v := int u] ! w = parent ! w"
        "sink < n" "\<not> visited ! sink" "res_edge capacity flow u sink"
        "visited[v := True] ! sink" "parent[v := int u] ! sink = int u"
        using new True v Cons.prems(1,2) by (auto simp: nth_list_update)
      from run' sp basics show ?thesis by blast
    next
      case False
      let ?vis = "visited[v := True]" and ?par = "parent[v := int u]"
      have len: "length ?vis = n" "length ?par = n" using Cons.prems by simp_all
      have filt: "filter (?new ?vis) vs = filter (?new visited) vs"
      proof (rule filter_cong [OF refl])
        fix x assume "x \<in> set vs"
        with vnotin have "v \<noteq> x" by blast
        then show "?new ?vis x = ?new visited x" by simp
      qed
      from Cons.IH [OF len vs, of "queue @ [v]"]
      obtain found visited' queue' parent' where
        run: "bfs_for capacity flow sink u vs (?vis, queue @ [v], ?par)
                = Inr (found, (visited', queue', parent'))"
        and l: "length visited' = n" "length parent' = n"
        and keep: "\<forall>w<n. ?vis ! w \<longrightarrow> visited' ! w \<and> parent' ! w = ?par ! w"
        and f: "found \<longrightarrow> sink < n \<and> \<not> ?vis ! sink \<and> res_edge capacity flow u sink \<and>
                 visited' ! sink \<and> parent' ! sink = int u \<and>
                 (\<exists>vs1 vs2. vs = vs1 @ sink # vs2 \<and>
                    (\<forall>w<n. w \<noteq> sink \<longrightarrow> parent' ! w =
                       (if w \<in> set vs1 \<and> ?new ?vis w then int u else ?par ! w)))"
        and nf: "\<not> found \<longrightarrow>
           sink \<notin> set (filter (?new ?vis) vs) \<and>
           queue' = (queue @ [v]) @ filter (?new ?vis) vs \<and>
           (\<forall>w<n. visited' ! w = (?vis ! w \<or> w \<in> set (filter (?new ?vis) vs))) \<and>
           (\<forall>w<n. parent' ! w = (if w \<in> set (filter (?new ?vis) vs) then int u else ?par ! w))"
        by blast
      have run': "bfs_for capacity flow sink u (v # vs) (visited, queue, parent)
                = Inr (found, (visited', queue', parent'))"
        using eq new False run by simp
      have k: "\<forall>w<n. visited ! w \<longrightarrow> visited' ! w \<and> parent' ! w = parent ! w"
      proof (intro allI impI)
        fix w assume w: "w < n" "visited ! w"
        with new have "w \<noteq> v" by blast
        then have "?vis ! w" "?par ! w = parent ! w" using w by simp_all
        with keep w(1) show "visited' ! w \<and> parent' ! w = parent ! w" by metis
      qed
      have f': "found \<longrightarrow> sink < n \<and> \<not> visited ! sink \<and> res_edge capacity flow u sink \<and>
                 visited' ! sink \<and> parent' ! sink = int u \<and>
                 (\<exists>vs1 vs2. v # vs = vs1 @ sink # vs2 \<and>
                    (\<forall>w<n. w \<noteq> sink \<longrightarrow> parent' ! w =
                       (if w \<in> set vs1 \<and> ?new visited w then int u else parent ! w)))"
      proof
        assume found
        with f obtain vs1 vs2 where
          b: "sink < n" "\<not> ?vis ! sink" "res_edge capacity flow u sink"
             "visited' ! sink" "parent' ! sink = int u"
          and sp: "vs = vs1 @ sink # vs2"
          and P: "\<forall>w<n. w \<noteq> sink \<longrightarrow> parent' ! w =
                       (if w \<in> set vs1 \<and> ?new ?vis w then int u else ?par ! w)"
          by blast
        from b(2) False Cons.prems(1) have ns: "\<not> visited ! sink"
          by (simp add: nth_list_update split: if_splits)
        from sp vnotin have v1: "v \<notin> set vs1" by simp
        have "v # vs = (v # vs1) @ sink # vs2" using sp by simp
        moreover have "\<forall>w<n. w \<noteq> sink \<longrightarrow> parent' ! w =
            (if w \<in> set (v # vs1) \<and> ?new visited w then int u else parent ! w)"
        proof (intro allI impI)
          fix w assume w: "w < n" "w \<noteq> sink"
          show "parent' ! w =
            (if w \<in> set (v # vs1) \<and> ?new visited w then int u else parent ! w)"
          proof (cases "w = v")
            case True
            with P w v1 have "parent' ! w = ?par ! v" by simp
            with True new v Cons.prems(2) show ?thesis by simp
          next
            case False
            then have "?vis ! w = visited ! w" "?par ! w = parent ! w" by simp_all
            with P w False show ?thesis by simp
          qed
        qed
        ultimately show "sink < n \<and> \<not> visited ! sink \<and> res_edge capacity flow u sink \<and>
                 visited' ! sink \<and> parent' ! sink = int u \<and>
                 (\<exists>vs1 vs2. v # vs = vs1 @ sink # vs2 \<and>
                    (\<forall>w<n. w \<noteq> sink \<longrightarrow> parent' ! w =
                       (if w \<in> set vs1 \<and> ?new visited w then int u else parent ! w)))"
          using b ns by blast
      qed
      have nf': "\<not> found \<longrightarrow>
           sink \<notin> set (filter (?new visited) (v # vs)) \<and>
           queue' = queue @ filter (?new visited) (v # vs) \<and>
           (\<forall>w<n. visited' ! w = (visited ! w \<or> w \<in> set (filter (?new visited) (v # vs)))) \<and>
           (\<forall>w<n. parent' ! w = (if w \<in> set (filter (?new visited) (v # vs)) then int u else parent ! w))"
        using nf new False v Cons.prems(1,2) unfolding filt
        by (auto simp: nth_list_update)
      from run' l k f' nf' show ?thesis by blast
    qed
  qed
qed

lemma bfs_while_total:
  "square (length capacity) capacity \<Longrightarrow> square (length capacity) flow \<Longrightarrow>
    res_defined capacity flow \<Longrightarrow>
    length visited = length capacity \<Longrightarrow> length parent = length capacity \<Longrightarrow>
    set queue \<subseteq> {..<length capacity} \<Longrightarrow>
    \<exists>found parent'.
      bfs_while capacity flow sink (visited, queue, parent) = Inr (found, parent') \<and>
      length parent' = length capacity \<and>
      (found \<longrightarrow> sink < length capacity \<and> \<not> visited ! sink)"
proof (induction capacity flow sink "(visited, queue, parent)"
    arbitrary: visited queue parent rule: bfs_while.induct)
  case (1 capacity flow sink visited parent)
  then show ?case by auto
next
  case (2 capacity flow sink visited u queue parent)
  let ?n = "length capacity"
  from "2.prems" have u: "u < ?n" and q: "set queue \<subseteq> {..<?n}" by auto
  have vs: "set [0..<?n] \<subseteq> {..<?n}" "distinct [0..<?n]" by auto
  have ok: "arith_ok (capacity ! u ! v) (flow ! u ! v)" if "v < ?n" for v
    using res_defined_nth [OF "2.prems"(3) u that] .
  from bfs_for_spec [OF "2.prems"(1,2) u ok "2.prems"(4,5) vs, of sink queue]
  obtain found visited' queue' parent' where
    run: "bfs_for capacity flow sink u [0..<?n] (visited, queue, parent)
            = Inr (found, (visited', queue', parent'))"
    and l: "length visited' = ?n" "length parent' = ?n"
    and keep: "\<forall>w<?n. visited ! w \<longrightarrow> visited' ! w \<and> parent' ! w = parent ! w"
    and f: "found \<longrightarrow> sink < ?n \<and> \<not> visited ! sink"
    and nf: "\<not> found \<longrightarrow>
       queue' = queue @ filter (\<lambda>v. \<not> visited ! v \<and> res_edge capacity flow u v) [0..<?n]"
    by blast
  show ?case
  proof (cases found)
    case True
    with run l f show ?thesis by auto
  next
    case False
    with nf q have q': "set queue' \<subseteq> {..<?n}" by auto
    from "2.hyps" [OF run refl False "2.prems"(1,2,3) l q']
    obtain fnd par where
      r: "bfs_while capacity flow sink (visited', queue', parent') = Inr (fnd, par)"
      and lp: "length par = ?n" and s: "fnd \<longrightarrow> sink < ?n \<and> \<not> visited' ! sink"
      by blast
    from run False r have "bfs_while capacity flow sink (visited, u # queue, parent) = Inr (fnd, par)"
      by simp
    moreover have "fnd \<longrightarrow> sink < ?n \<and> \<not> visited ! sink" using s keep by blast
    ultimately show ?thesis using lp by blast
  qed
qed

lemma bfs_total:
  assumes "square (length capacity) capacity" "square (length capacity) flow"
    and "res_defined capacity flow"
    and "source < length capacity" "length parent = length capacity"
  shows "\<exists>found parent'.
      bfs capacity flow source sink parent = Inr (found, parent') \<and>
      length parent' = length capacity \<and>
      (found \<longrightarrow> sink < length capacity \<and> sink \<noteq> source)"
proof -
  let ?n = "length capacity"
  let ?vis = "(replicate ?n False)[source := True]"
  have "\<exists>found parent'.
      bfs_while capacity flow sink (?vis, [source], parent) = Inr (found, parent') \<and>
      length parent' = ?n \<and> (found \<longrightarrow> sink < ?n \<and> \<not> ?vis ! sink)"
    using assms by (intro bfs_while_total) simp_all
  then show ?thesis using assms(4) by (auto simp: bfs_def)
qed

lemma edmonds_karp_no_search:
  assumes "square (length capacity) capacity" "source < length capacity"
    and "sink = source \<or> length capacity \<le> sink"
  shows "edmonds_karp capacity source sink =
    Some (Inr (Num 0, replicate (length capacity) (replicate (length capacity) (Num 0))))"
proof -
  let ?n = "length capacity"
  let ?z = "replicate ?n (replicate ?n (Num 0))"
  have "square ?n ?z" by (simp add: square_def)
  moreover have "res_defined capacity ?z" by (simp add: res_defined_def arith_ok_0)
  ultimately have "\<exists>found parent'.
      bfs capacity ?z source sink (replicate ?n (- 1)) = Inr (found, parent') \<and>
      length parent' = ?n \<and> (found \<longrightarrow> sink < ?n \<and> sink \<noteq> source)"
    using assms(1,2) by (intro bfs_total) simp_all
  with assms(3)
  obtain parent' where "bfs capacity ?z source sink (replicate ?n (- 1)) = Inr (False, parent')"
    by auto
  then have "ek_step capacity source sink (ek_init capacity) = Some (Inr None)"
    by (simp add: ek_step_def ek_init_def Let_def)
  then show ?thesis
    by (subst edmonds_karp_def, subst ek_loop.simps) (simp add: ek_init_def Let_def)
qed

lemma edmonds_karp_source_out_of_range:
  assumes "length capacity \<le> source"
  shows "edmonds_karp capacity source sink = Some (Inl IndexError)"
proof -
  have "bfs capacity flow source sink parent = Inl IndexError" for flow parent
    using assms by (simp add: bfs_def)
  then have "ek_step capacity source sink (ek_init capacity) = Some (Inl IndexError)"
    by (simp add: ek_step_def ek_init_def Let_def)
  then show ?thesis
    by (subst edmonds_karp_def, subst ek_loop.simps) simp
qed

subsection \<open>The flow table\<close>

lemma pymin_num: "pymin (Num b) (Num a) = Num (min b a)"
  by (simp add: pymin_def min_def)

lemma pymin_num_positive: "pgt0 (pymin (Num b) (Num a)) = (pgt0 (Num a) \<and> pgt0 (Num b))"
  by (simp add: pymin_def pgt0_def) linarith

lemma all_num_entry: "all_num n flow \<Longrightarrow> i < n \<Longrightarrow> j < n \<Longrightarrow> \<exists>x. flow ! i ! j = Num x"
  by (simp add: all_num_def)

lemma all_num_square: "all_num n flow \<Longrightarrow> square n flow"
  by (simp add: all_num_def)

lemma warehouse_loop_sum:
  assumes an: "all_num n flow" and t: "ti < n" and s: "si < n"
  shows "\<forall>w \<in> set ws. resolves node_indices n w \<Longrightarrow>
    warehouse_loop flow node_indices (int ti) (int si) ws (Num tot0) =
      Inr (foldl ext_add (Num tot0) (filter pgt0
        (map (\<lambda>w. pymin (flow ! ti ! w) (flow ! w ! si)) (map (index_of node_indices) ws))))"
proof (induction ws arbitrary: tot0)
  case Nil
  then show ?case by simp
next
  case (Cons w ws)
  note sq = all_num_square [OF an]
  from Cons.prems obtain wi where wi: "wi < n" "map_of node_indices w = Some (int wi)"
    by (auto simp: resolves_def)
  then have idx: "index_of node_indices w = wi" by (simp add: index_of_def)
  from all_num_entry [OF an wi(1) s] obtain a where a: "flow ! wi ! si = Num a" by blast
  from all_num_entry [OF an t wi(1)] obtain b where b: "flow ! ti ! wi = Num b" by blast
  have ga: "mat_get flow (int wi) (int si) = Inr (Num a)"
    and gb: "mat_get flow (int ti) (int wi) = Inr (Num b)"
    using mat_get_int [OF sq] wi(1) t s a b by simp_all
  have rest: "warehouse_loop flow node_indices (int ti) (int si) ws (Num tot) =
      Inr (foldl ext_add (Num tot) (filter pgt0
        (map (\<lambda>w. pymin (flow ! ti ! w) (flow ! w ! si)) (map (index_of node_indices) ws))))" for tot
    using Cons.IH Cons.prems by simp
  show ?case
  proof (cases "pgt0 (Num a) \<and> pgt0 (Num b)")
    case True
    then have "pgt0 (pymin (Num b) (Num a))" using pymin_num_positive [of b a] by simp
    with True show ?thesis
      using wi(2) ga gb rest idx a b by (simp add: pymin_num py_add_num min.commute)
  next
    case False
    then have "\<not> pgt0 (pymin (Num b) (Num a))" using pymin_num_positive [of b a] by simp
    with False show ?thesis
      using wi(2) ga gb rest idx a b by auto
  qed
qed

lemma store_loop_rows:
  assumes an: "all_num n flow" and t: "ti < n"
    and ws: "\<forall>w \<in> set warehouses. resolves node_indices n w"
  shows "\<forall>k \<in> set nums. resolves node_indices n (store_name k) \<Longrightarrow>
    store_loop store_name flow node_indices term (int ti) warehouses nums =
      Inr (concat (map (\<lambda>k.
        (let a = attributed flow ti (map (index_of node_indices) warehouses)
                   (index_of node_indices (store_name k))
         in if pgt0 a then [(term, store_name k, a)] else [])) nums))"
proof (induction nums)
  case Nil
  then show ?case by simp
next
  case (Cons k nums)
  from Cons.prems obtain si where si: "si < n" "map_of node_indices (store_name k) = Some (int si)"
    by (auto simp: resolves_def)
  then have idx: "index_of node_indices (store_name k) = si" by (simp add: index_of_def)
  from warehouse_loop_sum [OF an t si(1) ws, of 0] Cons.IH Cons.prems si(2) idx
  show ?case by (simp add: attributed_def Let_def)
qed

lemma print_flow_table_rows:
  assumes an: "all_num n flow"
    and ws: "\<forall>w \<in> set warehouses. resolves node_indices n w"
    and ks: "\<forall>k \<in> set store_range. resolves node_indices n (store_name k)"
  shows "\<forall>t \<in> set terminals. resolves node_indices n t \<Longrightarrow>
    print_flow_table store_name flow node_indices terminals warehouses store_range =
      Inr (attribution_table store_name flow node_indices terminals warehouses store_range)"
proof (induction terminals)
  case Nil
  then show ?case by (simp add: attribution_table_def)
next
  case (Cons t terminals)
  from Cons.prems obtain ti where ti: "ti < n" "map_of node_indices t = Some (int ti)"
    by (auto simp: resolves_def)
  then have idx: "index_of node_indices t = ti" by (simp add: index_of_def)
  from store_loop_rows [OF an ti(1) ws ks, of t] Cons.IH Cons.prems ti(2) idx
  show ?case by (simp add: attribution_table_def)
qed

subsection \<open>Correctness of the search\<close>

lemma res_edge_bound: "res_edge capacity flow u v \<Longrightarrow> u < length capacity \<and> v < length capacity"
  by (simp add: res_edge_def)

lemma bfs_inv_step:
  assumes inv: "bfs_inv capacity flow source sink d (visited, u # queue, parent)"
    and len: "length visited' = length capacity" "length parent' = length capacity"
    and N: "N = filter (\<lambda>v. \<not> visited ! v \<and> res_edge capacity flow u v) [0..<length capacity]"
    and sink: "sink \<notin> set N"
    and vis': "\<forall>w<length capacity. visited' ! w = (visited ! w \<or> w \<in> set N)"
    and par': "\<forall>w<length capacity. parent' ! w = (if w \<in> set N then int u else parent ! w)"
  shows "bfs_inv capacity flow source sink (\<lambda>v. if v \<in> set N then Suc (d u) else d v)
           (visited', queue @ N, parent')"
proof -
  let ?n = "length capacity"
  let ?d = "\<lambda>v. if v \<in> set N then Suc (d u) else d v"
  let ?E = "res_edge capacity flow"
  from inv have tree: "tree_inv capacity flow source d visited parent"
    and nsink: "sink < ?n \<longrightarrow> \<not> visited ! sink"
    and qv: "\<forall>x \<in> set (u # queue). x < ?n \<and> visited ! x"
    and srt: "sorted (map d (u # queue))"
    and bnd: "\<forall>v<?n. visited ! v \<longrightarrow> (\<forall>x \<in> set (u # queue). d v \<le> Suc (d x))"
    and clo: "\<forall>x<?n. visited ! x \<and> x \<notin> set (u # queue) \<longrightarrow>
        (\<forall>y. ?E x y \<longrightarrow> visited ! y \<and> d y \<le> Suc (d x))"
    and ord: "\<forall>x<?n. visited ! x \<and> x \<notin> set (u # queue) \<longrightarrow> (\<forall>z \<in> set (u # queue). d x \<le> d z)"
    by (simp_all add: bfs_inv_def)
  have u: "u < ?n" "visited ! u" using qv by simp_all
  have Nset: "\<And>w. w \<in> set N \<longleftrightarrow> w < ?n \<and> \<not> visited ! w \<and> ?E u w"
    unfolding N by auto
  have uN: "u \<notin> set N" using Nset u by blast
  have du: "\<And>z. z \<in> set queue \<Longrightarrow> d u \<le> d z" using srt by simp
  have dvu: "\<And>v. v < ?n \<Longrightarrow> visited ! v \<Longrightarrow> d v \<le> Suc (d u)" using bnd by simp
  from tree have t1: "length visited = ?n" "length parent = ?n" "source < ?n" "visited ! source"
      "d source = 0"
    and t2: "\<And>v. v < ?n \<Longrightarrow> visited ! v \<Longrightarrow> v \<noteq> source \<Longrightarrow>
        \<exists>p<?n. parent ! v = int p \<and> visited ! p \<and> ?E p v \<and> d v = Suc (d p)"
    by (simp_all add: tree_inv_def)
  have tree': "tree_inv capacity flow source ?d visited' parent'"
    unfolding tree_inv_def
  proof (intro conjI allI impI)
    show "length visited' = ?n" "length parent' = ?n" "source < ?n" by (fact len t1)+
    show "visited' ! source" using vis' t1 by simp
    show "?d source = 0" using Nset t1 by simp
  next
    fix v assume v: "v < ?n" "visited' ! v \<and> v \<noteq> source"
    show "\<exists>p<?n. parent' ! v = int p \<and> visited' ! p \<and> ?E p v \<and> ?d v = Suc (?d p)"
    proof (cases "v \<in> set N")
      case True
      then have "parent' ! v = int u" "visited' ! u" "?E u v" "?d v = Suc (?d u)"
        using par' vis' v u uN Nset by simp_all
      with u show ?thesis by blast
    next
      case False
      with v vis' have "visited ! v" by simp
      from t2 [OF v(1) this] v obtain p where
        p: "p < ?n" "parent ! v = int p" "visited ! p" "?E p v" "d v = Suc (d p)" by blast
      then have "p \<notin> set N" using Nset by blast
      with p False v par' vis' have
        "parent' ! v = int p" "visited' ! p" "?E p v" "?d v = Suc (?d p)" by simp_all
      with p(1) show ?thesis by blast
    qed
  qed
  have q': "\<forall>x \<in> set (queue @ N). x < ?n \<and> visited' ! x"
    using qv vis' Nset by auto
  have qN: "\<And>x. x \<in> set queue \<Longrightarrow> x \<notin> set N" using qv Nset by auto
  have mq: "map ?d queue = map d queue" using qN by (intro map_cong) simp_all
  have sq: "sorted (map ?d queue)" unfolding mq using srt by simp
  have mN: "map ?d N = replicate (length N) (Suc (d u))"
    by (simp add: map_replicate_const [symmetric] cong: map_cong)
  have sN: "sorted (map ?d N)" unfolding mN by (simp add: sorted_replicate)
  have "\<forall>a \<in> set (map d queue). \<forall>b \<in> set (replicate (length N) (Suc (d u))). a \<le> b"
    using dvu qv by auto
  then have cross: "\<forall>a \<in> set (map ?d queue). \<forall>b \<in> set (map ?d N). a \<le> b"
    unfolding mq mN .
  have srt': "sorted (map ?d (queue @ N))"
    unfolding map_append sorted_append using sq sN cross by blast
  have bnd': "\<forall>v<?n. visited' ! v \<longrightarrow> (\<forall>x \<in> set (queue @ N). ?d v \<le> Suc (?d x))"
  proof (intro allI impI ballI)
    fix v x assume v: "v < ?n" "visited' ! v" and x: "x \<in> set (queue @ N)"
    show "?d v \<le> Suc (?d x)"
    proof (cases "v \<in> set N")
      case True
      then show ?thesis using x du qN by (cases "x \<in> set N") auto
    next
      case False
      with v vis' have vv: "visited ! v" by simp
      show ?thesis
      proof (cases "x \<in> set N")
        case True
        with False dvu [OF v(1) vv] show ?thesis by simp
      next
        case xf: False
        with x have "x \<in> set (u # queue)" by simp
        with bnd v(1) vv have "d v \<le> Suc (d x)" by blast
        with False xf show ?thesis by simp
      qed
    qed
  qed
  have exp: "\<And>x. x < ?n \<Longrightarrow> visited' ! x \<Longrightarrow> x \<notin> set (queue @ N) \<Longrightarrow>
      visited ! x \<and> x \<notin> set N \<and> x \<notin> set queue"
    using vis' by auto
  have clo': "\<forall>x<?n. visited' ! x \<and> x \<notin> set (queue @ N) \<longrightarrow>
        (\<forall>y. ?E x y \<longrightarrow> visited' ! y \<and> ?d y \<le> Suc (?d x))"
  proof (intro allI impI)
    fix x y assume x: "x < ?n" "visited' ! x \<and> x \<notin> set (queue @ N)" and e: "?E x y"
    from exp [OF x(1)] x(2) have xx: "visited ! x" "x \<notin> set N" "x \<notin> set queue" by simp_all
    from e have y: "y < ?n" by (simp add: res_edge_def)
    show "visited' ! y \<and> ?d y \<le> Suc (?d x)"
    proof (cases "x = u")
      case True
      show ?thesis
      proof (cases "visited ! y")
        case True
        with dvu [OF y] vis' y xx \<open>x = u\<close> Nset show ?thesis by auto
      next
        case False
        with e y \<open>x = u\<close> have "y \<in> set N" using Nset by simp
        with vis' y xx \<open>x = u\<close> show ?thesis by simp
      qed
    next
      case False
      with xx have "x \<notin> set (u # queue)" by simp
      with clo x(1) xx(1) e have "visited ! y" "d y \<le> Suc (d x)" by blast+
      with vis' y xx Nset show ?thesis by auto
    qed
  qed
  have ord': "\<forall>x<?n. visited' ! x \<and> x \<notin> set (queue @ N) \<longrightarrow>
      (\<forall>z \<in> set (queue @ N). ?d x \<le> ?d z)"
  proof (intro allI impI ballI)
    fix x z assume x: "x < ?n" "visited' ! x \<and> x \<notin> set (queue @ N)" and z: "z \<in> set (queue @ N)"
    from exp [OF x(1)] x(2) have xx: "visited ! x" "x \<notin> set N" "x \<notin> set queue" by simp_all
    have xu: "d x \<le> d u"
    proof (cases "x = u")
      case False
      with xx have "x \<notin> set (u # queue)" by simp
      with ord x(1) xx(1) show ?thesis by simp
    qed simp
    show "?d x \<le> ?d z"
    proof (cases "z \<in> set N")
      case True
      with xx xu show ?thesis by simp
    next
      case False
      with z have zq: "z \<in> set queue" by simp
      show ?thesis
      proof (cases "x = u")
        case True
        with du [OF zq] xx False show ?thesis by simp
      next
        case xf: False
        with xx have "x \<notin> set (u # queue)" by simp
        with ord x(1) xx(1) zq have "d x \<le> d z" by simp
        with xx False show ?thesis by simp
      qed
    qed
  qed
  have nsink': "sink < ?n \<longrightarrow> \<not> visited' ! sink" using nsink vis' sink by simp
  from tree' nsink' q' srt' bnd' clo' ord' show ?thesis
    unfolding bfs_inv_def by simp
qed

lemma tree_chain:
  assumes tree: "tree_inv capacity flow source d visited parent"
  shows "v < length capacity \<Longrightarrow> visited ! v \<Longrightarrow>
    \<exists>ws. hd ws = v \<and> last ws = source \<and> length ws = Suc (d v) \<and> distinct ws \<and>
      parent_chain parent ws \<and> successively (\<lambda>a b. res_edge capacity flow b a) ws \<and>
      (\<forall>x \<in> set ws. d x \<le> d v \<and> x < length capacity)"
proof (induction "d v" arbitrary: v)
  case 0
  with tree have "v = source" unfolding tree_inv_def by (metis nat.distinct(1))
  moreover from tree have "d source = 0" by (simp add: tree_inv_def)
  ultimately show ?case using "0.prems" by (intro exI [of _ "[source]"]) simp
next
  case (Suc k)
  from tree have "d source = 0" by (simp add: tree_inv_def)
  with Suc.hyps(2) have "v \<noteq> source" by auto
  with tree Suc.prems obtain p where
    p: "p < length capacity" "parent ! v = int p" "visited ! p" "res_edge capacity flow p v"
      "d v = Suc (d p)"
    unfolding tree_inv_def by blast
  with Suc.hyps(2) have "k = d p" by simp
  from Suc.hyps(1) [OF this p(1,3)] obtain ws where
    ws: "hd ws = p" "last ws = source" "length ws = Suc (d p)" "distinct ws"
      "parent_chain parent ws" "successively (\<lambda>a b. res_edge capacity flow b a) ws"
      "\<forall>x \<in> set ws. d x \<le> d p \<and> x < length capacity"
    by blast
  from ws(3) obtain rest where rest: "ws = p # rest" using ws(1) by (cases ws) auto
  have "v \<notin> set ws" using ws(7) p(5) by auto
  with ws p rest Suc.prems(1) show ?case
    by (intro exI [of _ "v # ws"]) auto
qed

lemma bfs_inv_shortest:
  assumes inv: "bfs_inv capacity flow source sink d (visited, u # queue, parent)"
    and sink: "sink < length capacity"
  shows "successively (res_edge capacity flow) (x # rest) \<Longrightarrow> x < length capacity \<Longrightarrow>
    visited ! x \<Longrightarrow> last (x # rest) = sink \<Longrightarrow> d u + 2 \<le> d x + length (x # rest)"
proof (induction rest arbitrary: x)
  case Nil
  with inv sink show ?case by (simp add: bfs_inv_def)
next
  case (Cons y rest)
  let ?n = "length capacity"
  from Cons.prems have e: "res_edge capacity flow x y"
    and r: "successively (res_edge capacity flow) (y # rest)" "last (y # rest) = sink"
    by simp_all
  from e have y: "y < ?n" by (simp add: res_edge_def)
  show ?case
  proof (cases "x \<in> set (u # queue)")
    case True
    with inv have "d u \<le> d x" by (auto simp: bfs_inv_def)
    then show ?thesis by simp
  next
    case False
    with inv Cons.prems(2,3) e have "visited ! y" "d y \<le> Suc (d x)"
      unfolding bfs_inv_def by (simp, blast)+
    with Cons.IH [OF r(1) y _ r(2)] show ?thesis by simp
  qed
qed

lemma bfs_while_correct:
  "square (length capacity) capacity \<Longrightarrow> square (length capacity) flow \<Longrightarrow>
   res_defined capacity flow \<Longrightarrow>
   bfs_inv capacity flow source sink d (visited, queue, parent) \<Longrightarrow>
   \<exists>found parent'.
     bfs_while capacity flow sink (visited, queue, parent) = Inr (found, parent') \<and>
     length parent' = length capacity \<and>
     (found \<longrightarrow> bfs_found capacity flow source sink parent') \<and>
     (\<not> found \<longrightarrow> bfs_closed capacity flow source sink)"
proof (induction capacity flow sink "(visited, queue, parent)"
    arbitrary: visited queue parent d rule: bfs_while.induct)
  case (1 capacity flow sink visited parent)
  let ?n = "length capacity"
  let ?S = "{v. v < ?n \<and> visited ! v}"
  from "1.prems"(4) have "?S \<subseteq> {..<?n}" "source \<in> ?S" "sink \<notin> ?S"
    "\<forall>x \<in> ?S. \<forall>y. res_edge capacity flow x y \<longrightarrow> y \<in> ?S"
    "length parent = ?n"
    by (auto simp: bfs_inv_def tree_inv_def res_edge_def)
  then show ?case unfolding bfs_closed_def by (simp del: mem_Collect_eq) blast
next
  case (2 capacity flow sink visited u queue parent)
  let ?n = "length capacity"
  let ?E = "res_edge capacity flow"
  note inv = "2.prems"(4)
  from inv have tree: "tree_inv capacity flow source d visited parent"
    and u: "u < ?n" "visited ! u" and lens: "length visited = ?n" "length parent = ?n"
    by (simp_all add: bfs_inv_def tree_inv_def)
  have vs: "set [0..<?n] \<subseteq> {..<?n}" "distinct [0..<?n]" by auto
  let ?N = "filter (\<lambda>v. \<not> visited ! v \<and> ?E u v) [0..<?n]"
  have ok: "arith_ok (capacity ! u ! v) (flow ! u ! v)" if "v < ?n" for v
    using res_defined_nth [OF "2.prems"(3) u(1) that] .
  from bfs_for_spec [OF "2.prems"(1,2) u(1) ok lens vs, of sink queue]
  obtain found visited' queue' parent' where
    run: "bfs_for capacity flow sink u [0..<?n] (visited, queue, parent)
            = Inr (found, (visited', queue', parent'))"
    and l: "length visited' = ?n" "length parent' = ?n"
    and keep: "\<forall>w<?n. visited ! w \<longrightarrow> visited' ! w \<and> parent' ! w = parent ! w"
    and f: "found \<longrightarrow> sink < ?n \<and> \<not> visited ! sink \<and> ?E u sink \<and>
                 visited' ! sink \<and> parent' ! sink = int u"
    and nf: "\<not> found \<longrightarrow> sink \<notin> set ?N \<and> queue' = queue @ ?N \<and>
         (\<forall>w<?n. visited' ! w = (visited ! w \<or> w \<in> set ?N)) \<and>
         (\<forall>w<?n. parent' ! w = (if w \<in> set ?N then int u else parent ! w))"
    by blast
  show ?case
  proof (cases found)
    case True
    with f have s: "sink < ?n" "\<not> visited ! sink" "?E u sink" "parent' ! sink = int u"
      by simp_all
    let ?d = "d(sink := Suc (d u))" and ?vis = "visited[sink := True]"
    from tree have t1: "source < ?n" "visited ! source" "d source = 0"
      and t2: "\<And>v. v < ?n \<Longrightarrow> visited ! v \<Longrightarrow> v \<noteq> source \<Longrightarrow>
        \<exists>p<?n. parent ! v = int p \<and> visited ! p \<and> ?E p v \<and> d v = Suc (d p)"
      by (simp_all add: tree_inv_def)
    have ne: "source \<noteq> sink" "u \<noteq> sink" using t1 u s by auto
    have tree': "tree_inv capacity flow source ?d ?vis parent'"
      unfolding tree_inv_def
    proof (intro conjI allI impI)
      show "length ?vis = ?n" "length parent' = ?n" "source < ?n" using lens l t1 by simp_all
      show "?vis ! source" using t1 ne by simp
      show "?d source = 0" using t1 ne by simp
    next
      fix v assume v: "v < ?n" "?vis ! v \<and> v \<noteq> source"
      show "\<exists>p<?n. parent' ! v = int p \<and> ?vis ! p \<and> ?E p v \<and> ?d v = Suc (?d p)"
      proof (cases "v = sink")
        case True
        with s u ne lens show ?thesis by (intro exI [of _ u]) simp
      next
        case False
        with v have vv: "visited ! v" by simp
        from t2 [OF v(1) vv] v obtain p where
          p: "p < ?n" "parent ! v = int p" "visited ! p" "?E p v" "d v = Suc (d p)" by blast
        then have "p \<noteq> sink" using s by auto
        with p False keep v(1) vv show ?thesis by (intro exI [of _ p]) simp
      qed
    qed
    have short: "\<forall>ps. res_path capacity flow ps \<and> hd ps = source \<and> last ps = sink \<longrightarrow>
           Suc (?d sink) \<le> length ps"
    proof (intro allI impI)
      fix ps assume ps: "res_path capacity flow ps \<and> hd ps = source \<and> last ps = sink"
      then obtain rest where r: "ps = source # rest" by (cases ps) (auto simp: res_path_def)
      with ps have "successively ?E (source # rest)" "last (source # rest) = sink"
        by (simp_all add: res_path_def)
      from bfs_inv_shortest [OF inv s(1) this(1) t1(1,2) this(2)] t1(3) r
      show "Suc (?d sink) \<le> length ps" by simp
    qed
    have "bfs_found capacity flow source sink parent'"
      unfolding bfs_found_def using tree' short s(1) lens by (intro exI [of _ ?d] exI [of _ ?vis]) simp
    with run True l show ?thesis by auto
  next
    case False
    with nf have N: "sink \<notin> set ?N" "queue' = queue @ ?N"
      "\<forall>w<?n. visited' ! w = (visited ! w \<or> w \<in> set ?N)"
      "\<forall>w<?n. parent' ! w = (if w \<in> set ?N then int u else parent ! w)"
      by simp_all
    from bfs_inv_step [OF inv l refl N(1,3,4)]
    have inv': "bfs_inv capacity flow source sink (\<lambda>v. if v \<in> set ?N then Suc (d u) else d v)
        (visited', queue', parent')"
      unfolding N(2) .
    from "2.hyps" [OF run refl False "2.prems"(1,2,3) inv']
    obtain fnd par where
      r: "bfs_while capacity flow sink (visited', queue', parent') = Inr (fnd, par)"
      and rest: "length par = ?n" "fnd \<longrightarrow> bfs_found capacity flow source sink par"
        "\<not> fnd \<longrightarrow> bfs_closed capacity flow source sink"
      by blast
    from run False r have "bfs_while capacity flow sink (visited, u # queue, parent) = Inr (fnd, par)"
      by simp
    with rest show ?thesis by blast
  qed
qed

lemma bfs_correct:
  assumes sq: "square (length capacity) capacity" "square (length capacity) flow"
    and rd: "res_defined capacity flow"
    and src: "source < length capacity" and par: "length parent = length capacity"
    and ne: "source \<noteq> sink"
  shows "\<exists>found parent'.
     bfs capacity flow source sink parent = Inr (found, parent') \<and>
     length parent' = length capacity \<and>
     (found \<longrightarrow> bfs_found capacity flow source sink parent') \<and>
     (\<not> found \<longrightarrow> bfs_closed capacity flow source sink)"
proof -
  let ?n = "length capacity"
  let ?vis = "(replicate ?n False)[source := True]"
  have only: "\<And>v. v < ?n \<Longrightarrow> ?vis ! v \<longleftrightarrow> v = source"
    using src by (simp add: nth_list_update)
  have "tree_inv capacity flow source (\<lambda>_. 0) ?vis parent"
    unfolding tree_inv_def using src par only by simp
  then have "bfs_inv capacity flow source sink (\<lambda>_. 0) (?vis, [source], parent)"
    unfolding bfs_inv_def using src ne only by auto
  from bfs_while_correct [OF sq rd this] src show ?thesis
    by (simp add: bfs_def)
qed

lemma bfs_found_path:
  assumes "bfs_found capacity flow source sink parent"
  shows "\<exists>ws. hd ws = sink \<and> last ws = source \<and> distinct ws \<and> parent_chain parent ws \<and>
      successively (\<lambda>a b. res_edge capacity flow b a) ws \<and> set ws \<subseteq> {..<length capacity} \<and>
      (\<forall>ps. res_path capacity flow ps \<and> hd ps = source \<and> last ps = sink \<longrightarrow>
         length ws \<le> length ps)"
proof -
  from assms obtain d visited where
    tree: "tree_inv capacity flow source d visited parent"
    and s: "sink < length capacity" "visited ! sink"
    and short: "\<forall>ps. res_path capacity flow ps \<and> hd ps = source \<and> last ps = sink \<longrightarrow>
           Suc (d sink) \<le> length ps"
    unfolding bfs_found_def by blast
  from tree_chain [OF tree s] obtain ws where
    "hd ws = sink" "last ws = source" "length ws = Suc (d sink)" "distinct ws"
    "parent_chain parent ws" "successively (\<lambda>a b. res_edge capacity flow b a) ws"
    "\<forall>x \<in> set ws. d x \<le> d sink \<and> x < length capacity"
    by blast
  with short show ?thesis by (intro exI [of _ ws]) auto
qed

lemma res_path_reach:
  "successively (res_edge capacity flow) (x # ps) \<Longrightarrow>
   (res_edge capacity flow)\<^sup>*\<^sup>* x (last (x # ps))"
proof (induction ps arbitrary: x)
  case Nil
  then show ?case by simp
next
  case (Cons y ps)
  then have "res_edge capacity flow x y" "(res_edge capacity flow)\<^sup>*\<^sup>* y (last (y # ps))"
    by simp_all
  then show ?case by (simp add: converse_rtranclp_into_rtranclp)
qed

lemma bfs_closed_unreachable:
  assumes "bfs_closed capacity flow source sink"
  shows "\<not> (res_edge capacity flow)\<^sup>*\<^sup>* source sink"
proof
  assume r: "(res_edge capacity flow)\<^sup>*\<^sup>* source sink"
  from assms obtain S where S: "source \<in> S" "sink \<notin> S"
    "\<forall>x \<in> S. \<forall>y. res_edge capacity flow x y \<longrightarrow> y \<in> S"
    unfolding bfs_closed_def by blast
  from r have "sink \<in> S"
    by (induction rule: rtranclp_induct) (use S in blast)+
  with S show False by simp
qed

subsection \<open>The search stops at the sink\<close>

lemma before_agree:
  assumes par0: "\<forall>v<n. visited ! v \<and> v \<noteq> source \<longrightarrow> (\<exists>p<n. parent ! v = int p \<and> visited ! p)"
    and ag0: "\<forall>v<n. visited ! v \<longrightarrow> parent' ! v = parent ! v"
  shows "before parent source v w \<Longrightarrow> v < n \<Longrightarrow> w < n \<Longrightarrow> visited ! v \<Longrightarrow> visited ! w \<Longrightarrow>
    before parent' source v w"
proof -
  have par: "\<exists>p<n. parent ! v = int p \<and> visited ! p" if "v < n" "visited ! v" "v \<noteq> source" for v
    using par0 that by blast
  have ag: "parent' ! v = parent ! v" if "v < n" "visited ! v" for v
    using ag0 that by blast
  show "before parent source v w \<Longrightarrow> v < n \<Longrightarrow> w < n \<Longrightarrow> visited ! v \<Longrightarrow> visited ! w \<Longrightarrow>
    before parent' source v w"
  proof (induction rule: before.induct)
  case (before_source w)
  then show ?case by (intro before.before_source)
next
  case (before_sibling v w)
  then show ?case using ag by (intro before.before_sibling) simp_all
next
  case (before_parent v w p q)
  from par [OF before_parent.prems(1,3) before_parent.hyps(1)] before_parent.hyps(3)
  have p: "p < n" "visited ! p" by auto
  from par [OF before_parent.prems(2,4) before_parent.hyps(2)] before_parent.hyps(4)
  have q: "q < n" "visited ! q" by auto
  from before_parent.IH [OF p(1) q(1) p(2) q(2)] before_parent.hyps(1-4) before_parent.prems
  show ?case using ag by (intro before.before_parent [of v source w _ p q]) simp_all
  qed
qed

lemma order_inv_step:
  assumes inv: "order_inv n parent0 source r (visited, u # queue, parent)"
    and len: "length visited' = n" "length parent' = n"
    and N: "N = filter (\<lambda>v. \<not> visited ! v \<and> E v) [0..<n]"
    and vis': "\<forall>w<n. visited' ! w = (visited ! w \<or> w \<in> set N)"
    and par': "\<forall>w<n. parent' ! w = (if w \<in> set N then int u else parent ! w)"
  shows "\<exists>r'. order_inv n parent0 source r' (visited', queue @ N, parent')"
proof -
  define K where "K = Suc (Max (r ` {..<n}))"
  define r' where "r' = (\<lambda>x. if x \<in> set N then K + x else r x)"
  from inv have src: "source < n" "visited ! source"
    and stale: "\<And>v. v < n \<Longrightarrow> \<not> visited ! v \<Longrightarrow> parent ! v = parent0 ! v"
    and ord: "\<And>v w. v < n \<Longrightarrow> w < n \<Longrightarrow> visited ! v \<Longrightarrow> visited ! w \<Longrightarrow> r v < r w \<Longrightarrow>
        before parent source v w"
    and srt: "sorted_wrt (\<lambda>x y. r x < r y) (u # queue)"
    and qv: "\<And>x. x \<in> set (u # queue) \<Longrightarrow> x < n \<and> visited ! x"
    and tree: "\<And>v. v < n \<Longrightarrow> visited ! v \<Longrightarrow> v \<noteq> source \<Longrightarrow>
        \<exists>p<n. parent ! v = int p \<and> visited ! p \<and> p \<notin> set (u # queue) \<and>
          (\<forall>x \<in> set (u # queue). r p < r x)"
    unfolding order_inv_def prod.case by blast+
  have Nset: "\<And>w. w \<in> set N \<longleftrightarrow> w < n \<and> \<not> visited ! w \<and> E w" unfolding N by auto
  have rK: "r v < K" if "v < n" for v
  proof -
    have "r v \<le> Max (r ` {..<n})" using that by (intro Max_ge) simp_all
    then show ?thesis by (simp add: K_def)
  qed
  have u: "u < n" "visited ! u" using qv by simp_all
  have uN: "u \<notin> set N" using Nset u by blast
  have uq: "u \<notin> set queue" "\<And>x. x \<in> set queue \<Longrightarrow> r u < r x" using srt by auto
  have old: "r' v = r v" "parent' ! v = parent ! v" "visited' ! v" "v \<notin> set N"
    if "v < n" "visited ! v" for v
    using that Nset par' vis' by (simp_all add: r'_def)
  have new: "r' v = K + v" "parent' ! v = int u" "visited' ! v" "v \<noteq> source" "v < n"
    if "v \<in> set N" for v
    using that Nset par' vis' src by (auto simp: r'_def)
  have split: "visited ! v \<or> v \<in> set N" if "v < n" "visited' ! v" for v
    using that vis' by simp
  have tree0: "\<forall>v<n. visited ! v \<and> v \<noteq> source \<longrightarrow> (\<exists>p<n. parent ! v = int p \<and> visited ! p)"
    using tree by blast
  have ag0: "\<forall>v<n. visited ! v \<longrightarrow> parent' ! v = parent ! v" using old(2) by blast
  note agree = before_agree [OF tree0 ag0]
  have ord': "before parent' source v w"
    if vw: "v < n" "w < n" "visited' ! v" "visited' ! w" "r' v < r' w" for v w
  proof -
    consider (nn) "v \<in> set N" "w \<in> set N" | (no) "v \<in> set N" "visited ! w"
      | (on) "visited ! v" "w \<in> set N" | (oo) "visited ! v" "visited ! w"
      using split [OF vw(1,3)] split [OF vw(2,4)] by blast
    then show ?thesis
    proof cases
      case nn
      with vw(5) new(1) have "v < w" by simp
      with new(2,4) [OF nn(1)] new(2,4) [OF nn(2)] show ?thesis
        by (intro before.before_sibling) simp_all
    next
      case no
      with vw(5) new(1) [OF no(1)] old(1) [OF vw(2) no(2)] rK [OF vw(2)] show ?thesis by simp
    next
      case on
      show ?thesis
      proof (cases "v = source")
        case True
        with new(4) [OF on(2)] show ?thesis by (simp add: before.before_source)
      next
        case False
        from tree [OF vw(1) on(1) False] obtain p where
          p: "p < n" "parent ! v = int p" "visited ! p" "r p < r u" by auto
        from ord [OF p(1) u(1) p(3) u(2) p(4)] have "before parent source p u" .
        from agree [OF this p(1) u(1) p(3) u(2)] have "before parent' source p u" .
        with False new(2,4) [OF on(2)] old(2) [OF vw(1) on(1)] p(2) show ?thesis
          by (intro before.before_parent [of v source w _ p u]) simp_all
      qed
    next
      case oo
      with vw old(1) have "r v < r w" by simp
      from agree [OF ord [OF vw(1,2) oo this] vw(1,2) oo] show ?thesis .
    qed
  qed
  have sq: "sorted_wrt (\<lambda>x y. r' x < r' y) queue"
  proof (rule sorted_wrt_mono_rel [of queue "\<lambda>x y. r x < r y"])
    fix x y assume "x \<in> set queue" "y \<in> set queue" "r x < r y"
    with qv old(1) show "r' x < r' y" by simp
  next
    show "sorted_wrt (\<lambda>x y. r x < r y) queue" using srt by simp
  qed
  have "sorted_wrt (<) N" unfolding N by (intro sorted_wrt_filter) simp
  then have sN: "sorted_wrt (\<lambda>x y. r' x < r' y) N"
    by (rule sorted_wrt_mono_rel [rotated]) (simp add: new(1))
  have cross: "r' x < r' y" if "x \<in> set queue" "y \<in> set N" for x y
  proof -
    from that(1) qv have x: "x < n" "visited ! x" by simp_all
    from old(1) [OF x] rK [OF x(1)] new(1) [OF that(2)] show ?thesis by simp
  qed
  have srt': "sorted_wrt (\<lambda>x y. r' x < r' y) (queue @ N)"
    unfolding sorted_wrt_append using sq sN cross by blast
  have qv': "\<forall>x \<in> set (queue @ N). x < n \<and> visited' ! x"
    using qv old(3) new(3,5) by auto
  have tree': "\<exists>p<n. parent' ! v = int p \<and> visited' ! p \<and> p \<notin> set (queue @ N) \<and>
      (\<forall>x \<in> set (queue @ N). r' p < r' x)"
    if v: "v < n" "visited' ! v" "v \<noteq> source" for v
  proof (cases "v \<in> set N")
    case True
    have "r' u < r' x" if "x \<in> set (queue @ N)" for x
    proof (cases "x \<in> set N")
      case True
      from old(1) [OF u] rK [OF u(1)] new(1) [OF True] show ?thesis by simp
    next
      case False
      with that have xq: "x \<in> set queue" by simp
      with qv have "x < n" "visited ! x" by simp_all
      from old(1) [OF this] old(1) [OF u] uq(2) [OF xq] show ?thesis by simp
    qed
    with new(2) [OF True] old(3) [OF u] uN uq(1) u(1) show ?thesis
      by (intro exI [of _ u]) simp
  next
    case False
    with split [OF v(1,2)] have vv: "visited ! v" by blast
    from tree [OF v(1) vv v(3)] obtain p where
      p: "p < n" "parent ! v = int p" "visited ! p" "p \<notin> set (u # queue)"
        "\<forall>x \<in> set (u # queue). r p < r x" by blast
    have "r' p < r' x" if "x \<in> set (queue @ N)" for x
    proof (cases "x \<in> set N")
      case True
      from old(1) [OF p(1,3)] rK [OF p(1)] new(1) [OF True] show ?thesis by simp
    next
      case False
      with that have xq: "x \<in> set queue" by simp
      with qv have "x < n" "visited ! x" by simp_all
      from old(1) [OF this] old(1) [OF p(1,3)] p(5) xq show ?thesis by simp
    qed
    with p old(2) [OF v(1) vv] old(3,4) [OF p(1,3)] show ?thesis
      by (intro exI [of _ p]) simp
  qed
  have stale': "parent' ! v = parent0 ! v" if "v < n" "\<not> visited' ! v" for v
    using that vis' par' stale by simp
  have "order_inv n parent0 source r' (visited', queue @ N, parent')"
    unfolding order_inv_def prod.case
    using len src(1) old(3) [OF src] stale' ord' srt' qv' tree' by blast
  then show ?thesis by blast
qed

lemma order_inv_found:
  assumes inv: "order_inv n parent0 source r (visited, u # queue, parent)"
    and sink: "sink < n" "\<not> visited ! sink" "parent' ! sink = int u"
    and keep: "\<forall>w<n. visited ! w \<longrightarrow> parent' ! w = parent ! w"
    and sp: "[0..<n] = vs1 @ sink # vs2"
    and wr: "\<forall>w<n. w \<noteq> sink \<longrightarrow> parent' ! w =
       (if w \<in> set vs1 \<and> \<not> visited ! w \<and> E w then int u else parent ! w)"
    and v: "v < n" "parent' ! v \<noteq> parent0 ! v" "v \<noteq> sink"
  shows "before parent' source v sink"
proof -
  from inv have src: "source < n" "visited ! source"
    and stale: "\<And>v. v < n \<Longrightarrow> \<not> visited ! v \<Longrightarrow> parent ! v = parent0 ! v"
    and ord: "\<And>v w. v < n \<Longrightarrow> w < n \<Longrightarrow> visited ! v \<Longrightarrow> visited ! w \<Longrightarrow> r v < r w \<Longrightarrow>
        before parent source v w"
    and qv: "\<And>x. x \<in> set (u # queue) \<Longrightarrow> x < n \<and> visited ! x"
    and tree: "\<And>v. v < n \<Longrightarrow> visited ! v \<Longrightarrow> v \<noteq> source \<Longrightarrow>
        \<exists>p<n. parent ! v = int p \<and> visited ! p \<and> p \<notin> set (u # queue) \<and>
          (\<forall>x \<in> set (u # queue). r p < r x)"
    unfolding order_inv_def prod.case by blast+
  have u: "u < n" "visited ! u" using qv by simp_all
  have ns: "sink \<noteq> source" using src sink by blast
  have tree0: "\<forall>v<n. visited ! v \<and> v \<noteq> source \<longrightarrow> (\<exists>p<n. parent ! v = int p \<and> visited ! p)"
    using tree by blast
  have ag: "parent' ! v = parent ! v" if "v < n" "visited ! v" for v using keep that by blast
  note agree = before_agree [OF tree0 keep]
  show ?thesis
  proof (cases "visited ! v")
    case True
    show ?thesis
    proof (cases "v = source")
      case True
      with ns show ?thesis by (simp add: before.before_source)
    next
      case False
      from tree [OF v(1) True False] obtain p where
        p: "p < n" "parent ! v = int p" "visited ! p" "r p < r u" by auto
      from ord [OF p(1) u(1) p(3) u(2) p(4)] have "before parent source p u" .
      from agree [OF this p(1) u(1) p(3) u(2)] have "before parent' source p u" .
      with False ns ag [OF v(1) True] p(2) sink(3) show ?thesis
        by (intro before.before_parent [of v source sink _ p u]) simp_all
    qed
  next
    case False
    from stale [OF v(1) False] v(2) wr v(1,3)
    have in1: "v \<in> set vs1" and pv: "parent' ! v = int u" by (auto split: if_splits)
    have "sorted_wrt (<) (vs1 @ sink # vs2)" unfolding sp [symmetric] by simp
    with in1 have "v < sink" by (auto simp: sorted_wrt_append)
    moreover from False src have "v \<noteq> source" by blast
    ultimately show ?thesis using pv sink(3) ns by (intro before.before_sibling) simp_all
  qed
qed

lemma bfs_while_order:
  "square (length capacity) capacity \<Longrightarrow> square (length capacity) flow \<Longrightarrow>
   res_defined capacity flow \<Longrightarrow>
   order_inv (length capacity) parent0 source r (visited, queue, parent) \<Longrightarrow>
   bfs_while capacity flow sink (visited, queue, parent) = Inr (True, parent') \<Longrightarrow>
   v < length capacity \<Longrightarrow> parent' ! v \<noteq> parent0 ! v \<Longrightarrow> v \<noteq> sink \<Longrightarrow>
   before parent' source v sink"
proof (induction capacity flow sink "(visited, queue, parent)"
    arbitrary: visited queue parent r rule: bfs_while.induct)
  case (1 capacity flow sink visited parent)
  then show ?case by simp
next
  case (2 capacity flow sink visited u queue parent)
  let ?n = "length capacity"
  let ?E = "res_edge capacity flow"
  note inv = "2.prems"(4)
  from inv have u: "u < ?n" and lens: "length visited = ?n" "length parent = ?n"
    by (simp_all add: order_inv_def)
  have vs: "set [0..<?n] \<subseteq> {..<?n}" "distinct [0..<?n]" by auto
  let ?N = "filter (\<lambda>v. \<not> visited ! v \<and> ?E u v) [0..<?n]"
  have ok: "arith_ok (capacity ! u ! v) (flow ! u ! v)" if "v < ?n" for v
    using res_defined_nth [OF "2.prems"(3) u that] .
  from bfs_for_spec [OF "2.prems"(1,2) u ok lens vs, of sink queue]
  obtain found visited' queue' parent'' where
    run: "bfs_for capacity flow sink u [0..<?n] (visited, queue, parent)
            = Inr (found, (visited', queue', parent''))"
    and l: "length visited' = ?n" "length parent'' = ?n"
    and keep: "\<forall>w<?n. visited ! w \<longrightarrow> visited' ! w \<and> parent'' ! w = parent ! w"
    and f: "found \<longrightarrow> sink < ?n \<and> \<not> visited ! sink \<and> parent'' ! sink = int u \<and>
         (\<exists>vs1 vs2. [0..<?n] = vs1 @ sink # vs2 \<and>
            (\<forall>w<?n. w \<noteq> sink \<longrightarrow> parent'' ! w =
               (if w \<in> set vs1 \<and> \<not> visited ! w \<and> ?E u w then int u else parent ! w)))"
    and nf: "\<not> found \<longrightarrow> queue' = queue @ ?N \<and>
         (\<forall>w<?n. visited' ! w = (visited ! w \<or> w \<in> set ?N)) \<and>
         (\<forall>w<?n. parent'' ! w = (if w \<in> set ?N then int u else parent ! w))"
    by blast
  show ?case
  proof (cases found)
    case True
    with run "2.prems"(5) have eq: "parent' = parent''" by simp
    from True f obtain vs1 vs2 where
      s: "sink < ?n" "\<not> visited ! sink" "parent'' ! sink = int u"
      and sp: "[0..<?n] = vs1 @ sink # vs2"
      and wr: "\<forall>w<?n. w \<noteq> sink \<longrightarrow> parent'' ! w =
               (if w \<in> set vs1 \<and> \<not> visited ! w \<and> ?E u w then int u else parent ! w)"
      by blast
    from keep have k: "\<forall>w<?n. visited ! w \<longrightarrow> parent'' ! w = parent ! w" by blast
    from order_inv_found [OF inv s k sp wr "2.prems"(6) "2.prems"(7) [unfolded eq] "2.prems"(8)]
    show ?thesis unfolding eq .
  next
    case False
    with nf have N: "queue' = queue @ ?N"
      "\<forall>w<?n. visited' ! w = (visited ! w \<or> w \<in> set ?N)"
      "\<forall>w<?n. parent'' ! w = (if w \<in> set ?N then int u else parent ! w)"
      by simp_all
    from order_inv_step [OF inv l refl N(2,3)] obtain r' where
      inv': "order_inv ?n parent0 source r' (visited', queue', parent'')"
      unfolding N(1) by blast
    from run False "2.prems"(5)
    have w: "bfs_while capacity flow sink (visited', queue', parent'') = Inr (True, parent')"
      by simp
    from "2.hyps" [OF run refl False "2.prems"(1,2,3) inv' w "2.prems"(6,7,8)]
    show ?thesis .
  qed
qed

lemma bfs_early_stop:
  assumes sq: "square (length capacity) capacity" "square (length capacity) flow"
    and rd: "res_defined capacity flow"
    and src: "source < length capacity" and par: "length parent = length capacity"
    and run: "bfs capacity flow source sink parent = Inr (True, parent')"
    and v: "v < length capacity" "parent' ! v \<noteq> parent ! v" "v \<noteq> sink"
  shows "before parent' source v sink"
proof -
  let ?n = "length capacity"
  let ?vis = "(replicate ?n False)[source := True]"
  have only: "\<And>v. v < ?n \<Longrightarrow> ?vis ! v \<longleftrightarrow> v = source"
    using src by (simp add: nth_list_update)
  have inv: "order_inv ?n parent source (\<lambda>_. 0) (?vis, [source], parent)"
    unfolding order_inv_def prod.case using src par only by simp
  from run src have "bfs_while capacity flow sink (?vis, [source], parent) = Inr (True, parent')"
    by (simp add: bfs_def)
  from bfs_while_order [OF sq rd inv this v] show ?thesis .
qed

text \<open>
  The order is strict. In the tree \<open>[-1, 0, 1, 0]\<close>, where node 2 hangs below node 1 and
  the nodes 1 and 3 below the source 0, node 2 does not come before node 3: had a search
  for the sink 3 gone on to scan node 1, the entry it would have written for node 2 is
  one that \<open>bfs_early_stop\<close> rules out.
\<close>

lemma before_irrefl: "before parent source v w \<Longrightarrow> v \<noteq> w"
  by (induction rule: before.induct) auto

lemma before_example_parent: "\<not> before [- 1, 0, 1, 0] 0 1 0"
  by (subst before.simps) simp

lemma before_example_later: "\<not> before [- 1, 0, 1, 0] 0 2 3"
proof
  assume "before [- 1, 0, 1, 0] 0 2 3"
  then show False
  proof (cases rule: before.cases)
    case before_source
    then show ?thesis by simp
  next
    case before_sibling
    then show ?thesis by simp
  next
    case (before_parent p q)
    then have "p = 1" "q = 0" by simp_all
    with before_parent(5) before_example_parent show ?thesis by simp
  qed
qed

subsection \<open>The walks along the recorded path\<close>

lemma square_update:
  "square n m \<Longrightarrow> length row = n \<Longrightarrow> square n (m[u := row])"
  unfolding square_def using set_update_subset_insert [of m u row] by auto

lemma square_row: "square n m \<Longrightarrow> u < n \<Longrightarrow> length (m ! u) = n"
  by (simp add: square_def)

lemma mat_set_int:
  "square n m \<Longrightarrow> u < n \<Longrightarrow> v < n \<Longrightarrow>
   mat_set m (int u) (int v) x = Inr (m[u := (m ! u)[v := x]])"
  by (simp add: mat_set_def py_index_def square_def)

lemma square_push_edge: "square n flow \<Longrightarrow> u < n \<Longrightarrow> v < n \<Longrightarrow> square n (push_edge flow u v b)"
  unfolding push_edge_def Let_def
  by (intro square_update) (simp_all add: square_row square_update)

lemma push_edge_nth:
  assumes "square n flow" "u < n" "v < n" "u \<noteq> v" "i < n" "j < n"
  shows "push_edge flow u v b ! i ! j =
     (if i = u \<and> j = v then ext_add (flow ! u ! v) b
      else if i = v \<and> j = u then ext_sub (flow ! v ! u) b
      else flow ! i ! j)"
proof -
  have len: "length flow = n" "length (flow ! u) = n" "length (flow ! v) = n"
    using assms by (simp_all add: square_def)
  show ?thesis
    unfolding push_edge_def Let_def using assms len
    by (auto simp: nth_list_update)
qed

lemma walk_min_chain:
  assumes sq: "square n capacity" "square n flow"
    and ok: "\<And>u v. u < n \<Longrightarrow> v < n \<Longrightarrow> arith_ok (capacity ! u ! v) (flow ! u ! v)"
  shows "parent_chain parent ws \<Longrightarrow> distinct ws \<Longrightarrow> last ws = source \<Longrightarrow>
    set ws \<subseteq> {..<n} \<Longrightarrow> length parent = n \<Longrightarrow>
    walk_min capacity flow parent (int source) (int (hd ws)) path_flow =
      Some (Inr (foldl pymin path_flow (path_residuals capacity flow ws)))"
proof (induction parent ws arbitrary: path_flow rule: parent_chain.induct)
  case (1 parent)
  then show ?case by simp
next
  case (2 parent v)
  then show ?case by (subst walk_min.simps) (simp add: path_residuals_def)
next
  case (3 parent v u ws)
  from "3.prems"(3) have "source \<in> set (u # ws)" by (metis last.simps last_in_set list.distinct(1))
  with "3.prems"(2) have ne: "v \<noteq> source" by auto
  from "3.prems" have v: "v < n" and u: "u < n" and pv: "parent ! v = int u"
    by simp_all
  have "walk_min capacity flow parent (int source) (int v) path_flow =
      walk_min capacity flow parent (int source) (int u)
        (pymin path_flow (ext_sub (capacity ! u ! v) (flow ! u ! v)))"
    using ne v pv "3.prems"(1,5) residual_int [OF sq u v ok [OF u v]]
    by (subst walk_min.simps) simp
  also have "\<dots> = Some (Inr (foldl pymin (pymin path_flow (ext_sub (capacity ! u ! v) (flow ! u ! v)))
      (path_residuals capacity flow (u # ws))))"
    using "3.IH" [of "pymin path_flow (ext_sub (capacity ! u ! v) (flow ! u ! v))"] "3.prems"
    by simp
  finally show ?case by (simp add: path_residuals_def)
qed

subsection \<open>One augmentation on integer flows\<close>

lemma all_num_nth: "all_num n flow \<Longrightarrow> i < n \<Longrightarrow> j < n \<Longrightarrow> flow ! i ! j = Num (fl flow i j)"
proof -
  assume "all_num n flow" "i < n" "j < n"
  then obtain x where "flow ! i ! j = Num x" unfolding all_num_def by blast
  then show ?thesis by (simp add: fl_def)
qed

lemma push_edge_num:
  assumes an: "all_num n flow" and uv: "u < n" "v < n" "u \<noteq> v"
  shows "all_num n (push_edge flow u v (Num c))"
    and "\<And>i j. i < n \<Longrightarrow> j < n \<Longrightarrow>
      fl (push_edge flow u v (Num c)) i j =
        fl flow i j + (if i = u \<and> j = v then c else 0) - (if i = v \<and> j = u then c else 0)"
proof -
  from an have sq: "square n flow" by (simp add: all_num_def)
  have e: "push_edge flow u v (Num c) ! i ! j =
      Num (fl flow i j + (if i = u \<and> j = v then c else 0) - (if i = v \<and> j = u then c else 0))"
    if "i < n" "j < n" for i j
    using push_edge_nth [OF sq uv that, of "Num c"] all_num_nth [OF an] uv that
    by (auto simp: ext_sub_def)
  show "all_num n (push_edge flow u v (Num c))"
    unfolding all_num_def using square_push_edge [OF sq uv(1,2)] e by blast
  show "fl (push_edge flow u v (Num c)) i j =
        fl flow i j + (if i = u \<and> j = v then c else 0) - (if i = v \<and> j = u then c else 0)"
    if "i < n" "j < n" for i j
    using e [OF that] by (simp add: fl_def)
qed

lemma push_int:
  assumes an: "all_num n flow" and uv: "u < n" "v < n" "u \<noteq> v"
  shows "push flow (int u) (int v) (Num c) = Inr (push_edge flow u v (Num c))"
proof -
  from an have sq: "square n flow" by (simp add: all_num_def)
  let ?f1 = "flow[u := (flow ! u)[v := Num (fl flow u v + c)]]"
  have sq1: "square n ?f1" using sq uv by (intro square_update) (simp_all add: square_row)
  have x: "flow ! u ! v = Num (fl flow u v)" using all_num_nth [OF an uv(1,2)] .
  have len: "length flow = n" using sq by (simp add: square_def)
  have y: "?f1 ! v ! u = Num (fl flow v u)"
    using all_num_nth [OF an uv(2,1)] uv len by simp
  show ?thesis
    unfolding push_def push_edge_def Let_def
    by (simp add: mat_get_int [OF sq uv(1,2)] x py_add_num mat_set_int [OF sq uv(1,2)]
        mat_get_int [OF sq1 uv(2,1)] y py_sub_num mat_set_int [OF sq1 uv(2,1)] ext_sub_def)
qed

lemma walk_push_chain:
  "parent_chain parent ws \<Longrightarrow> distinct ws \<Longrightarrow> last ws = source \<Longrightarrow>
    set ws \<subseteq> {..<n} \<Longrightarrow> all_num n flow \<Longrightarrow> length parent = n \<Longrightarrow>
    walk_push flow parent (int source) (int (hd ws)) (Num c)
      = Some (Inr (push_path flow ws (Num c)))"
proof (induction parent ws arbitrary: flow rule: parent_chain.induct)
  case (1 parent)
  then show ?case by simp
next
  case (2 parent v)
  then show ?case by (subst walk_push.simps) simp
next
  case (3 parent v u ws)
  from "3.prems"(3) have "source \<in> set (u # ws)" by (metis last.simps last_in_set list.distinct(1))
  with "3.prems"(2) have ne: "v \<noteq> source" by auto
  from "3.prems" have v: "v < n" and u: "u < n" and pv: "parent ! v = int u" and uv: "u \<noteq> v"
    by auto
  have an': "all_num n (push_edge flow u v (Num c))"
    using push_edge_num(1) [OF "3.prems"(5) u v uv] .
  have "walk_push flow parent (int source) (int v) (Num c) =
      walk_push (push_edge flow u v (Num c)) parent (int source) (int u) (Num c)"
    using ne v pv push_int [OF "3.prems"(5) u v uv, of c] "3.prems"(6)
    by (subst walk_push.simps) simp
  also have "\<dots> = Some (Inr (push_path (push_edge flow u v (Num c)) (u # ws) (Num c)))"
    using "3.IH" [OF _ _ _ _ an' "3.prems"(6)] "3.prems" by simp
  finally show ?case by simp
qed

lemma push_edge_out:
  assumes an: "all_num n flow" and uv: "u < n" "v < n" "u \<noteq> v" and i: "i < n"
  shows "out_flow n (push_edge flow u v (Num c)) i =
    out_flow n flow i + (if i = u then c else 0) - (if i = v then c else 0)"
proof -
  have "out_flow n (push_edge flow u v (Num c)) i =
      (\<Sum>j<n. fl flow i j + (if j = v then (if i = u then c else 0) else 0)
                - (if j = u then (if i = v then c else 0) else 0))"
    unfolding out_flow_def
    by (rule sum.cong [OF refl]) (use push_edge_num(2) [OF an uv i] in auto)
  also have "\<dots> = out_flow n flow i + (if i = u then c else 0) - (if i = v then c else 0)"
    unfolding out_flow_def using uv by (simp add: sum.distrib sum_subtractf)
  finally show ?thesis .
qed

lemma push_path_num:
  "all_num n flow \<Longrightarrow> distinct ws \<Longrightarrow> set ws \<subseteq> {..<n} \<Longrightarrow>
   all_num n (push_path flow ws (Num c)) \<and>
   (\<forall>i<n. \<forall>j<n. fl (push_path flow ws (Num c)) i j =
      fl flow i j + (if (i, j) \<in> set (zip (tl ws) ws) then c else 0)
                  - (if (j, i) \<in> set (zip (tl ws) ws) then c else 0))"
proof (induction flow ws "Num c" rule: push_path.induct)
  case (1 flow v u ws)
  from "1.prems" have uv: "u < n" "v < n" "u \<noteq> v" and d: "distinct (u # ws)"
    and s: "set (u # ws) \<subseteq> {..<n}" and vn: "v \<notin> set (u # ws)"
    by auto
  note pe = push_edge_num [OF "1.prems"(1) uv, where c = c]
  from "1.hyps" [OF pe(1) d s]
  have an: "all_num n (push_path (push_edge flow u v (Num c)) (u # ws) (Num c))"
    and ent: "\<And>i j. i < n \<Longrightarrow> j < n \<Longrightarrow>
      fl (push_path (push_edge flow u v (Num c)) (u # ws) (Num c)) i j =
      fl (push_edge flow u v (Num c)) i j
        + (if (i, j) \<in> set (zip ws (u # ws)) then c else 0)
        - (if (j, i) \<in> set (zip ws (u # ws)) then c else 0)"
    by simp_all
  have n1: "(u, v) \<notin> set (zip ws (u # ws))" using vn by (auto dest: set_zip_rightD)
  have n2: "(v, u) \<notin> set (zip ws (u # ws))" using vn by (auto dest: set_zip_leftD)
  show ?case
  proof (intro conjI allI impI)
    show "all_num n (push_path flow (v # u # ws) (Num c))" using an by simp
  next
    fix i j assume ij: "i < n" "j < n"
    show "fl (push_path flow (v # u # ws) (Num c)) i j =
      fl flow i j + (if (i, j) \<in> set (zip (tl (v # u # ws)) (v # u # ws)) then c else 0)
                  - (if (j, i) \<in> set (zip (tl (v # u # ws)) (v # u # ws)) then c else 0)"
      using ent [OF ij] pe(2) [OF ij] n1 n2 uv(3) by auto
  qed
qed simp_all

lemma push_path_out:
  "all_num n flow \<Longrightarrow> distinct ws \<Longrightarrow> set ws \<subseteq> {..<n} \<Longrightarrow> ws \<noteq> [] \<Longrightarrow> i < n \<Longrightarrow>
   out_flow n (push_path flow ws (Num c)) i =
     out_flow n flow i + (if i = last ws then c else 0) - (if i = hd ws then c else 0)"
proof (induction flow ws "Num c" rule: push_path.induct)
  case (1 flow v u ws)
  from "1.prems" have uv: "u < n" "v < n" "u \<noteq> v" and d: "distinct (u # ws)"
    and s: "set (u # ws) \<subseteq> {..<n}"
    by auto
  note pe = push_edge_num(1) [OF "1.prems"(1) uv, where c = c]
  from "1.hyps" [OF pe d s _ "1.prems"(5)] push_edge_out [OF "1.prems"(1) uv "1.prems"(5), where c = c]
  show ?case by simp
qed simp_all

lemma pymin_pos_res:
  assumes "pos_res a" "pos_res r"
  shows "pos_res (pymin a r)"
    and "a = Num k \<Longrightarrow> \<exists>c. pymin a r = Num c \<and> c \<le> k"
    and "r = Num k \<Longrightarrow> \<exists>c. pymin a r = Num c \<and> c \<le> k"
  using assms by (auto simp: pos_res_def pymin_def)

lemma foldl_pymin:
  "pos_res a \<Longrightarrow> \<forall>r \<in> set rs. pos_res r \<Longrightarrow>
   pos_res (foldl pymin a rs) \<and>
   (\<forall>k. Num k \<in> set (a # rs) \<longrightarrow> (\<exists>c. foldl pymin a rs = Num c \<and> c \<le> k))"
proof (induction rs arbitrary: a)
  case Nil
  then show ?case by auto
next
  case (Cons r rs)
  from Cons.prems have pr: "pos_res r" and prs: "\<forall>r \<in> set rs. pos_res r" by simp_all
  note pm = pymin_pos_res [OF Cons.prems(1) pr]
  from Cons.IH [OF pm(1) prs]
  have p: "pos_res (foldl pymin (pymin a r) rs)"
    and b: "\<And>k. Num k \<in> set (pymin a r # rs) \<Longrightarrow>
      \<exists>c. foldl pymin (pymin a r) rs = Num c \<and> c \<le> k"
    by blast+
  have "\<exists>c. foldl pymin (pymin a r) rs = Num c \<and> c \<le> k" if k: "Num k \<in> set (a # r # rs)" for k
  proof -
    consider "a = Num k" | "r = Num k" | "Num k \<in> set rs" using k by auto
    then show ?thesis
    proof cases
      case 1
      from pm(2) [OF this] obtain c where c: "pymin a r = Num c" "c \<le> k" by blast
      with b [of c] show ?thesis by fastforce
    next
      case 2
      from pm(3) [OF this] obtain c where c: "pymin a r = Num c" "c \<le> k" by blast
      with b [of c] show ?thesis by fastforce
    next
      case 3
      with b [of k] show ?thesis by simp
    qed
  qed
  with p show ?case by simp
qed

lemma in_zip_swap: "(a, b) \<in> set (zip xs ys) \<longleftrightarrow> (b, a) \<in> set (zip ys xs)"
  by (auto simp: in_set_zip)

lemma successively_zip:
  assumes "successively P ws" "(a, b) \<in> set (zip ws (tl ws))"
  shows "P a b"
proof -
  from assms(2) obtain k where k: "ws ! k = a" "tl ws ! k = b" "k < length ws" "k < length (tl ws)"
    by (auto simp: in_set_zip)
  then have "Suc k < length ws" "ws ! Suc k = b" by (simp_all add: nth_tl)
  with assms(1) k(1) show ?thesis by (auto simp: successively_conv_nth)
qed

lemma inf_chain_reach:
  "ws \<noteq> [] \<Longrightarrow> set ws \<subseteq> {..<length capacity} \<Longrightarrow>
   \<forall>(v, u) \<in> set (zip ws (tl ws)). capacity ! u ! v = PInf \<Longrightarrow>
   (inf_edge capacity)\<^sup>*\<^sup>* (last ws) (hd ws)"
proof (induction ws rule: induct_list012)
  case 1
  then show ?case by simp
next
  case (2 v)
  then show ?case by simp
next
  case (3 v u ws)
  from "3.prems" have "inf_edge capacity u v" by (simp add: inf_edge_def)
  moreover from "3.IH"(2) "3.prems" have "(inf_edge capacity)\<^sup>*\<^sup>* (last (u # ws)) u" by simp
  ultimately show ?case by simp
qed

subsection \<open>Cuts, the bound on the value, and termination\<close>

lemma cut_value:
  fixes f :: "nat \<Rightarrow> nat \<Rightarrow> int"
  assumes skew: "\<And>i j. i < n \<Longrightarrow> j < n \<Longrightarrow> f i j = - f j i"
    and cons: "\<And>i. i < n \<Longrightarrow> i \<noteq> s \<Longrightarrow> i \<noteq> t \<Longrightarrow> (\<Sum>j<n. f i j) = 0"
    and S: "S \<subseteq> {..<n}" "s \<in> S" "t \<notin> S"
  shows "(\<Sum>j<n. f s j) = (\<Sum>i\<in>S. \<Sum>j\<in>{..<n} - S. f i j)"
proof -
  have fin: "finite S" using S(1) finite_subset by blast
  have "(\<Sum>i\<in>S. \<Sum>j<n. f i j) = (\<Sum>j<n. f s j) + (\<Sum>i\<in>S - {s}. \<Sum>j<n. f i j)"
    by (rule sum.remove [OF fin S(2)])
  moreover have "(\<Sum>i\<in>S - {s}. \<Sum>j<n. f i j) = 0"
    by (rule sum.neutral) (use S cons in blast)
  ultimately have A: "(\<Sum>i\<in>S. \<Sum>j<n. f i j) = (\<Sum>j<n. f s j)" by simp
  have B: "(\<Sum>i\<in>S. \<Sum>j<n. f i j) =
      (\<Sum>i\<in>S. \<Sum>j\<in>{..<n} - S. f i j) + (\<Sum>i\<in>S. \<Sum>j\<in>S. f i j)"
    unfolding sum.distrib [symmetric]
    by (rule sum.cong [OF refl]) (rule sum.subset_diff [OF S(1)], simp)
  let ?X = "\<Sum>i\<in>S. \<Sum>j\<in>S. f i j"
  have "?X = (\<Sum>j\<in>S. \<Sum>i\<in>S. f i j)" by (rule sum.swap)
  also have "\<dots> = (\<Sum>j\<in>S. \<Sum>i\<in>S. - f j i)"
    by (intro sum.cong refl) (use S(1) skew in blast)
  also have "\<dots> = - ?X" by (simp add: sum_negf)
  finally have "?X = 0" by simp
  with A B show ?thesis by simp
qed

lemma ek_inv_cut_value:
  assumes inv: "ek_inv capacity source sink (flow, parent, max_flow)"
    and S: "S \<subseteq> {..<length capacity}" "source \<in> S" "sink \<notin> S"
  shows "out_flow (length capacity) flow source =
    (\<Sum>i\<in>S. \<Sum>j\<in>{..<length capacity} - S. fl flow i j)"
  unfolding out_flow_def
proof (rule cut_value [OF _ _ S])
  fix i j assume "i < length capacity" "j < length capacity"
  with inv show "fl flow i j = - fl flow j i" unfolding ek_inv_def prod.case by blast
next
  fix i assume "i < length capacity" "i \<noteq> source" "i \<noteq> sink"
  with inv show "(\<Sum>j<length capacity. fl flow i j) = 0"
    unfolding ek_inv_def prod.case out_flow_def by blast
qed

lemma ek_inv_cut_bound:
  assumes inv: "ek_inv capacity source sink (flow, parent, max_flow)"
    and S: "S \<subseteq> {..<length capacity}" "source \<in> S" "sink \<notin> S"
    and fin: "\<And>i j. i \<in> S \<Longrightarrow> j < length capacity \<Longrightarrow> j \<notin> S \<Longrightarrow> capacity ! i ! j \<noteq> PInf"
    and caps: "\<And>i j. i < length capacity \<Longrightarrow> j < length capacity \<Longrightarrow>
        capacity ! i ! j = PInf \<or> (\<exists>k. capacity ! i ! j = Num k)"
  shows "out_flow (length capacity) flow source \<le>
    (\<Sum>i\<in>S. \<Sum>j\<in>{..<length capacity} - S. max 0 (capnum capacity i j))"
  unfolding ek_inv_cut_value [OF inv S]
proof (intro sum_mono)
  fix i j assume i: "i \<in> S" and j: "j \<in> {..<length capacity} - S"
  with S(1) have ij: "i < length capacity" "j < length capacity" "j \<notin> S" by auto
  from caps [OF ij(1,2)] fin [OF i ij(2,3)] obtain k where k: "capacity ! i ! j = Num k"
    by blast
  with inv ij have "fl flow i j \<le> max 0 k" unfolding ek_inv_def prod.case by blast
  with k show "fl flow i j \<le> max 0 (capnum capacity i j)" by (simp add: capnum_def)
qed

lemma cut_le_total:
  assumes "S \<subseteq> {..<length capacity}"
  shows "(\<Sum>i\<in>S. \<Sum>j\<in>{..<length capacity} - S. max 0 (capnum capacity i j))
    \<le> total_cap capacity"
proof -
  let ?n = "length capacity"
  let ?g = "\<lambda>i j. max 0 (capnum capacity i j)"
  have "(\<Sum>i\<in>S. \<Sum>j\<in>{..<?n} - S. ?g i j) \<le> (\<Sum>i\<in>S. \<Sum>j<?n. ?g i j)"
    by (intro sum_mono sum_mono2) auto
  also have "\<dots> \<le> (\<Sum>i<?n. \<Sum>j<?n. ?g i j)"
    using assms by (intro sum_mono2) (auto intro: sum_nonneg)
  finally show ?thesis unfolding total_cap_def .
qed

lemma ek_inv_bounded:
  assumes net: "ek_network capacity source sink"
    and inv: "ek_inv capacity source sink (flow, parent, max_flow)"
  shows "out_flow (length capacity) flow source \<le>
    (\<Sum>i\<in>inf_side capacity source.
       \<Sum>j\<in>{..<length capacity} - inf_side capacity source. max 0 (capnum capacity i j))"
proof (rule ek_inv_cut_bound [OF inv])
  show "inf_side capacity source \<subseteq> {..<length capacity}" by (auto simp: inf_side_def)
  show "source \<in> inf_side capacity source" using net by (simp add: inf_side_def ek_network_def)
  show "sink \<notin> inf_side capacity source" using net by (simp add: inf_side_def ek_network_def)
next
  fix i j assume i: "i \<in> inf_side capacity source" and j: "j < length capacity"
    "j \<notin> inf_side capacity source"
  show "capacity ! i ! j \<noteq> PInf"
  proof
    assume "capacity ! i ! j = PInf"
    with i j(1) have "inf_edge capacity i j" by (simp add: inf_edge_def inf_side_def)
    with i have "(inf_edge capacity)\<^sup>*\<^sup>* source j"
      by (auto simp: inf_side_def intro: rtranclp.rtrancl_into_rtrancl)
    with j show False by (simp add: inf_side_def)
  qed
next
  fix i j assume "i < length capacity" "j < length capacity"
  with net show "capacity ! i ! j = PInf \<or> (\<exists>k. capacity ! i ! j = Num k)"
    unfolding ek_network_def by blast
qed

lemma ek_inv_total:
  assumes net: "ek_network capacity source sink"
    and inv: "ek_inv capacity source sink (flow, parent, max_flow)"
  shows "out_flow (length capacity) flow source \<le> total_cap capacity"
proof -
  have "inf_side capacity source \<subseteq> {..<length capacity}" by (auto simp: inf_side_def)
  from ek_inv_bounded [OF net inv] cut_le_total [OF this] show ?thesis by linarith
qed

lemma ek_inv_res_defined:
  assumes net: "ek_network capacity source sink"
    and inv: "ek_inv capacity source sink (flow, parent, max_flow)"
  shows "res_defined capacity flow"
  unfolding res_defined_def
proof (intro allI impI)
  let ?n = "length capacity"
  fix u v assume uv: "u < ?n" "v < ?n"
  from inv have an: "all_num ?n flow"
    and ab: "\<bar>fl flow u v\<bar> \<le> out_flow ?n flow source"
    unfolding ek_inv_def prod.case using uv by blast+
  have f: "flow ! u ! v = Num (fl flow u v)" using all_num_nth [OF an uv] .
  from net uv have "capacity ! u ! v = PInf \<or> (\<exists>k. capacity ! u ! v = Num k)"
    unfolding ek_network_def by blast
  then show "arith_ok (capacity ! u ! v) (flow ! u ! v)"
  proof
    assume c: "capacity ! u ! v = PInf"
    with net uv have "total_cap capacity < dbl_limit" unfolding ek_network_def by blast
    with ek_inv_total [OF net inv] ab have "\<bar>fl flow u v\<bar> < dbl_limit" by linarith
    then show ?thesis unfolding c f by (simp add: float_ok_abs)
  next
    assume "\<exists>k. capacity ! u ! v = Num k"
    then show ?thesis unfolding f by auto
  qed
qed

lemma ek_step_cases:
  assumes net: "ek_network capacity source sink"
    and inv: "ek_inv capacity source sink (flow, parent, max_flow)"
  shows "(ek_step capacity source sink (flow, parent, max_flow) = Some (Inr None) \<and>
          bfs_closed capacity flow source sink)
       \<or> (\<exists>flow' parent' c. 0 < c \<and>
            ek_step capacity source sink (flow, parent, max_flow)
              = Some (Inr (Some (flow', parent', ext_add max_flow (Num c)))) \<and>
            ek_inv capacity source sink (flow', parent', ext_add max_flow (Num c)) \<and>
            out_flow (length capacity) flow' source
              = out_flow (length capacity) flow source + c)"
proof -
  let ?n = "length capacity"
  from net have sqc: "square ?n capacity" and src: "source < ?n" and snk: "sink < ?n"
    and ne: "source \<noteq> sink"
    and caps: "\<And>i j. i < ?n \<Longrightarrow> j < ?n \<Longrightarrow>
        capacity ! i ! j = PInf \<or> (\<exists>k. capacity ! i ! j = Num k)"
    and noinf: "\<not> (inf_edge capacity)\<^sup>*\<^sup>* source sink"
    by (simp_all add: ek_network_def)
  from inv have an: "all_num ?n flow" and par: "length parent = ?n"
    and mf: "max_flow = Num (out_flow ?n flow source)"
    and skew0: "\<forall>i<?n. \<forall>j<?n. fl flow i j = - fl flow j i"
    and cap0: "\<forall>i<?n. \<forall>j<?n. \<forall>k. capacity ! i ! j = Num k \<longrightarrow> fl flow i j \<le> max 0 k"
    and abs0: "\<forall>i<?n. \<forall>j<?n. \<bar>fl flow i j\<bar> \<le> out_flow ?n flow source"
    and cons0: "\<forall>i<?n. i \<noteq> source \<and> i \<noteq> sink \<longrightarrow> out_flow ?n flow i = 0"
    unfolding ek_inv_def prod.case by blast+
  have skew: "\<And>i j. i < ?n \<Longrightarrow> j < ?n \<Longrightarrow> fl flow i j = - fl flow j i"
    and cap: "\<And>i j k. i < ?n \<Longrightarrow> j < ?n \<Longrightarrow> capacity ! i ! j = Num k \<Longrightarrow> fl flow i j \<le> max 0 k"
    and ab: "\<And>i j. i < ?n \<Longrightarrow> j < ?n \<Longrightarrow> \<bar>fl flow i j\<bar> \<le> out_flow ?n flow source"
    and cons: "\<And>i. i < ?n \<Longrightarrow> i \<noteq> source \<Longrightarrow> i \<noteq> sink \<Longrightarrow> out_flow ?n flow i = 0"
    using skew0 cap0 abs0 cons0 by blast+
  note rd = ek_inv_res_defined [OF net inv]
  from an have sqf: "square ?n flow" by (simp add: all_num_def)
  from bfs_correct [OF sqc sqf rd src par ne] obtain found parent' where
    run: "bfs capacity flow source sink parent = Inr (found, parent')"
    and par': "length parent' = ?n"
    and f: "found \<longrightarrow> bfs_found capacity flow source sink parent'"
    and nf: "\<not> found \<longrightarrow> bfs_closed capacity flow source sink"
    by blast
  show ?thesis
  proof (cases found)
    case False
    with run nf show ?thesis by (simp add: ek_step_def)
  next
    case True
    with f bfs_found_path obtain ws where
      ws: "hd ws = sink" "last ws = source" "distinct ws" "parent_chain parent' ws"
        "successively (\<lambda>a b. res_edge capacity flow b a) ws" "set ws \<subseteq> {..<?n}"
      by blast
    from ws(4) have wne: "ws \<noteq> []" by auto
    let ?rs = "path_residuals capacity flow ws"
    have edge: "u < ?n \<and> v < ?n \<and> pgt0 (ext_sub (capacity ! u ! v) (flow ! u ! v))"
      if "(v, u) \<in> set (zip ws (tl ws))" for u v
      using successively_zip [OF ws(5) that] by (simp add: res_edge_def)
    have resid: "(capacity ! u ! v = PInf \<and> ext_sub (capacity ! u ! v) (flow ! u ! v) = PInf) \<or>
        (\<exists>k. capacity ! u ! v = Num k \<and> 0 < k - fl flow u v \<and>
           ext_sub (capacity ! u ! v) (flow ! u ! v) = Num (k - fl flow u v))"
      if "(v, u) \<in> set (zip ws (tl ws))" for u v
    proof -
      from edge [OF that] have uv: "u < ?n" "v < ?n"
        and pos: "pgt0 (ext_sub (capacity ! u ! v) (flow ! u ! v))" by simp_all
      from caps [OF uv] all_num_nth [OF an uv] pos show ?thesis
        by (auto simp: ext_sub_def pgt0_def)
    qed
    have R1: "\<forall>r \<in> set ?rs. pos_res r"
    proof
      fix r assume "r \<in> set ?rs"
      then obtain v u where vu: "(v, u) \<in> set (zip ws (tl ws))"
        and r: "r = ext_sub (capacity ! u ! v) (flow ! u ! v)"
        unfolding path_residuals_def by auto
      from resid [OF vu] show "pos_res r"
      proof
        assume "capacity ! u ! v = PInf \<and> ext_sub (capacity ! u ! v) (flow ! u ! v) = PInf"
        then have "r = PInf" unfolding r by blast
        then show ?thesis by (simp add: pos_res_def)
      next
        assume "\<exists>k. capacity ! u ! v = Num k \<and> 0 < k - fl flow u v \<and>
           ext_sub (capacity ! u ! v) (flow ! u ! v) = Num (k - fl flow u v)"
        then obtain k where "0 < k - fl flow u v" "r = Num (k - fl flow u v)"
          unfolding r by blast
        then show ?thesis unfolding pos_res_def by blast
      qed
    qed
    have R2: "\<exists>u v k. (v, u) \<in> set (zip ws (tl ws)) \<and> capacity ! u ! v = Num k"
    proof (rule ccontr)
      assume "\<not> ?thesis"
      with resid have "\<forall>(v, u) \<in> set (zip ws (tl ws)). capacity ! u ! v = PInf" by blast
      from inf_chain_reach [OF wne ws(6) this] ws(1,2) noinf show False by simp
    qed
    have mem: "ext_sub (capacity ! u ! v) (flow ! u ! v) \<in> set ?rs"
      if "(v, u) \<in> set (zip ws (tl ws))" for u v
      unfolding path_residuals_def using that by force
    from foldl_pymin [OF _ R1, of PInf]
    have pm: "pos_res (foldl pymin PInf ?rs)"
      and lb: "\<And>k. Num k \<in> set ?rs \<Longrightarrow> \<exists>c. foldl pymin PInf ?rs = Num c \<and> c \<le> k"
      by (simp_all add: pos_res_def)
    from R2 obtain u0 v0 k0 where e0: "(v0, u0) \<in> set (zip ws (tl ws))" "capacity ! u0 ! v0 = Num k0"
      by blast
    with resid [OF e0(1)] mem [OF e0(1)] have "Num (k0 - fl flow u0 v0) \<in> set ?rs" by auto
    from lb [OF this] obtain c where c: "foldl pymin PInf ?rs = Num c" by blast
    with pm have cpos: "0 < c" by (simp add: pos_res_def)
    have cle: "fl flow u v + c \<le> k"
      if "(v, u) \<in> set (zip ws (tl ws))" "capacity ! u ! v = Num k" for u v k
    proof -
      from resid [OF that(1)] mem [OF that(1)] that(2)
      have "Num (k - fl flow u v) \<in> set ?rs" by auto
      from lb [OF this] c show ?thesis by simp
    qed
    let ?flow' = "push_path flow ws (Num c)"
    have ok: "arith_ok (capacity ! u ! v) (flow ! u ! v)" if "u < ?n" "v < ?n" for u v
      using res_defined_nth [OF rd that] .
    from walk_min_chain [OF sqc sqf ok ws(4,3,2,6) par', of PInf] ws(1) c
    have wm: "walk_min capacity flow parent' (int source) (int sink) PInf = Some (Inr (Num c))"
      by simp
    from walk_push_chain [OF ws(4,3,2,6) an par', of c] ws(1)
    have wp: "walk_push flow parent' (int source) (int sink) (Num c) = Some (Inr ?flow')"
      by simp
    from run True wm wp mf
    have step: "ek_step capacity source sink (flow, parent, max_flow)
        = Some (Inr (Some (?flow', parent', ext_add max_flow (Num c))))"
      by (simp add: ek_step_def py_add_num)
    from push_path_num [OF an ws(3,6), of c]
    have an': "all_num ?n ?flow'"
      and ent: "\<And>i j. i < ?n \<Longrightarrow> j < ?n \<Longrightarrow> fl ?flow' i j =
        fl flow i j + (if (i, j) \<in> set (zip (tl ws) ws) then c else 0)
                    - (if (j, i) \<in> set (zip (tl ws) ws) then c else 0)"
      by blast+
    have out': "out_flow ?n ?flow' i =
        out_flow ?n flow i + (if i = source then c else 0) - (if i = sink then c else 0)"
      if "i < ?n" for i
      using push_path_out [OF an ws(3,6) wne that, of c] ws(1,2) by simp
    have osrc: "out_flow ?n ?flow' source = out_flow ?n flow source + c"
      using out' [OF src] ne by simp
    have skew': "fl ?flow' i j = - fl ?flow' j i" if "i < ?n" "j < ?n" for i j
      using ent [OF that] ent [OF that(2,1)] skew [OF that] by linarith
    have cap': "fl ?flow' i j \<le> max 0 k"
      if ij: "i < ?n" "j < ?n" and k: "capacity ! i ! j = Num k" for i j k
    proof (cases "(i, j) \<in> set (zip (tl ws) ws)")
      case True
      then have "(j, i) \<in> set (zip ws (tl ws))" by (rule iffD1 [OF in_zip_swap])
      from cle [OF this k] have "fl flow i j + c \<le> k" .
      moreover have "fl ?flow' i j \<le> fl flow i j + c"
        using ent [OF ij] True cpos by (simp split: if_splits)
      ultimately show ?thesis by linarith
    next
      case False
      have "fl ?flow' i j \<le> fl flow i j"
        using ent [OF ij] False cpos by (simp split: if_splits)
      with cap [OF ij k] show ?thesis by linarith
    qed
    have ab': "\<bar>fl ?flow' i j\<bar> \<le> out_flow ?n ?flow' source" if ij: "i < ?n" "j < ?n" for i j
    proof -
      have "\<bar>fl ?flow' i j\<bar> \<le> \<bar>fl flow i j\<bar> + c"
        using ent [OF ij] cpos by (simp split: if_splits)
      with ab [OF ij] osrc show ?thesis by linarith
    qed
    have cons': "out_flow ?n ?flow' i = 0" if "i < ?n" "i \<noteq> source" "i \<noteq> sink" for i
      using out' [OF that(1)] cons [OF that] that by simp
    have mf': "ext_add max_flow (Num c) = Num (out_flow ?n ?flow' source)"
      using mf osrc by simp
    have "ek_inv capacity source sink (?flow', parent', ext_add max_flow (Num c))"
      unfolding ek_inv_def prod.case
    proof (intro conjI allI impI)
      show "all_num ?n ?flow'" "length parent' = ?n"
        "ext_add max_flow (Num c) = Num (out_flow ?n ?flow' source)"
        by (fact an' par' mf')+
    next
      fix i j assume "i < ?n" "j < ?n"
      then show "fl ?flow' i j = - fl ?flow' j i" by (rule skew')
    next
      fix i j k assume "i < ?n" "j < ?n" "capacity ! i ! j = Num k"
      then show "fl ?flow' i j \<le> max 0 k" by (rule cap')
    next
      fix i j assume "i < ?n" "j < ?n"
      then show "\<bar>fl ?flow' i j\<bar> \<le> out_flow ?n ?flow' source" by (rule ab')
    next
      fix i assume "i < ?n" "i \<noteq> source \<and> i \<noteq> sink"
      then show "out_flow ?n ?flow' i = 0" using cons' by blast
    qed
    with step cpos osrc show ?thesis by blast
  qed
qed

lemma ek_inv_init:
  assumes src: "source < length capacity"
  shows "ek_inv capacity source sink (ek_init capacity)"
proof -
  let ?n = "length capacity"
  let ?z = "replicate ?n (replicate ?n (Num 0))"
  have z: "?z ! i ! j = Num 0" if "i < ?n" "j < ?n" for i j using that by simp
  have an: "all_num ?n ?z" unfolding all_num_def square_def by simp
  have f0: "fl ?z i j = 0" if "i < ?n" "j < ?n" for i j using z [OF that] by (simp add: fl_def)
  have o0: "out_flow ?n ?z i = 0" if "i < ?n" for i
    unfolding out_flow_def by (rule sum.neutral) (use f0 that in simp)
  show ?thesis
    unfolding ek_inv_def ek_init_def Let_def prod.case
    using an o0 [OF src] f0 o0 by simp
qed

lemma ek_after_inv:
  assumes net: "ek_network capacity source sink"
  shows "ek_after capacity source sink k st \<Longrightarrow> ek_inv capacity source sink st"
proof (induction rule: ek_after.induct)
  case ek_after_init
  from net have "source < length capacity" by (simp add: ek_network_def)
  then show ?case by (rule ek_inv_init)
next
  case (ek_after_step k st st')
  obtain flow parent max_flow where st: "st = (flow, parent, max_flow)" by (cases st)
  from ek_step_cases [OF net ek_after_step.IH [unfolded st]] ek_after_step.hyps(2)
  show ?case unfolding st by auto
qed

lemma ek_step_exit:
  assumes net: "ek_network capacity source sink"
    and inv: "ek_inv capacity source sink (flow, parent, max_flow)"
    and step: "ek_step capacity source sink (flow, parent, max_flow) = Some (Inr None)"
  shows "bfs_closed capacity flow source sink"
  using ek_step_cases [OF net inv] step by auto

lemma ek_after_count:
  assumes net: "ek_network capacity source sink"
  shows "ek_after capacity source sink k st \<Longrightarrow>
    int k \<le> out_flow (length capacity) (fst st) source"
proof (induction rule: ek_after.induct)
  case ek_after_init
  from net have src: "source < length capacity" by (simp add: ek_network_def)
  have "out_flow (length capacity) (fst (ek_init capacity)) source = 0"
    unfolding ek_init_def Let_def out_flow_def
    by (intro sum.neutral) (simp add: fl_def src)
  then show ?case by simp
next
  case (ek_after_step k st st')
  obtain flow parent max_flow where st: "st = (flow, parent, max_flow)" by (cases st)
  from ek_after_inv [OF net ek_after_step.hyps(1)]
  have inv: "ek_inv capacity source sink (flow, parent, max_flow)" unfolding st .
  from ek_step_cases [OF net inv] ek_after_step.hyps(2) [unfolded st] ek_after_step.IH
  show ?case unfolding st by auto
qed

lemma ek_loop_terminates:
  assumes net: "ek_network capacity source sink"
  shows "ek_after capacity source sink k st \<Longrightarrow>
    \<exists>k' st'. ek_after capacity source sink k' st' \<and>
      ek_step capacity source sink st' = Some (Inr None) \<and>
      ek_loop capacity source sink st = Some (Inr (snd (snd st'), fst st'))"
proof -
  let ?n = "length capacity"
  define C where "C = (\<Sum>i\<in>inf_side capacity source.
       \<Sum>j\<in>{..<?n} - inf_side capacity source. max 0 (capnum capacity i j))"
  show "ek_after capacity source sink k st \<Longrightarrow>
    \<exists>k' st'. ek_after capacity source sink k' st' \<and>
      ek_step capacity source sink st' = Some (Inr None) \<and>
      ek_loop capacity source sink st = Some (Inr (snd (snd st'), fst st'))"
  proof (induction "nat (C - out_flow ?n (fst st) source)" arbitrary: k st rule: less_induct)
    case less
    obtain flow parent max_flow where st: "st = (flow, parent, max_flow)" by (cases st)
    from ek_after_inv [OF net less.prems]
    have inv: "ek_inv capacity source sink (flow, parent, max_flow)" unfolding st .
    from ek_step_cases [OF net inv] show ?case
    proof (elim disjE conjE exE)
      assume step: "ek_step capacity source sink (flow, parent, max_flow) = Some (Inr None)"
      then have "ek_loop capacity source sink st = Some (Inr (snd (snd st), fst st))"
        by (subst ek_loop.simps) (simp add: st)
      with less.prems step st show ?thesis by blast
    next
      fix flow' parent' c
      assume c: "0 < c"
        and step: "ek_step capacity source sink (flow, parent, max_flow)
              = Some (Inr (Some (flow', parent', ext_add max_flow (Num c))))"
        and inv': "ek_inv capacity source sink (flow', parent', ext_add max_flow (Num c))"
        and out: "out_flow ?n flow' source = out_flow ?n flow source + c"
      let ?st' = "(flow', parent', ext_add max_flow (Num c))"
      have after': "ek_after capacity source sink (Suc k) ?st'"
        by (rule ek_after_step [OF less.prems step [folded st]])
      from ek_inv_bounded [OF net inv'] have "out_flow ?n flow' source \<le> C"
        unfolding C_def .
      with out c have "nat (C - out_flow ?n (fst ?st') source) < nat (C - out_flow ?n (fst st) source)"
        unfolding st by simp
      from less.hyps [OF this after'] obtain k' st'' where
        r: "ek_after capacity source sink k' st''"
          "ek_step capacity source sink st'' = Some (Inr None)"
          "ek_loop capacity source sink ?st' = Some (Inr (snd (snd st''), fst st''))"
        by blast
      have "ek_loop capacity source sink st = ek_loop capacity source sink ?st'"
        by (subst ek_loop.simps) (simp add: st step)
      with r(3) have "ek_loop capacity source sink st = Some (Inr (snd (snd st''), fst st''))"
        by simp
      with r(1,2) show ?thesis by blast
    qed
  qed
qed

lemma edmonds_karp_result:
  assumes net: "ek_network capacity source sink"
  shows "\<exists>k flow parent max_flow.
    ek_after capacity source sink k (flow, parent, max_flow) \<and>
    ek_step capacity source sink (flow, parent, max_flow) = Some (Inr None) \<and>
    edmonds_karp capacity source sink = Some (Inr (max_flow, flow)) \<and>
    ek_inv capacity source sink (flow, parent, max_flow) \<and>
    bfs_closed capacity flow source sink \<and>
    int k \<le> out_flow (length capacity) flow source"
proof -
  from ek_loop_terminates [OF net ek_after_init] obtain k st where
    r: "ek_after capacity source sink k st"
      "ek_step capacity source sink st = Some (Inr None)"
      "edmonds_karp capacity source sink = Some (Inr (snd (snd st), fst st))"
    unfolding edmonds_karp_def by blast
  obtain flow parent max_flow where st: "st = (flow, parent, max_flow)" by (cases st)
  from ek_after_inv [OF net r(1)] have inv: "ek_inv capacity source sink (flow, parent, max_flow)"
    unfolding st .
  from ek_step_exit [OF net inv] r(2) have "bfs_closed capacity flow source sink"
    unfolding st by simp
  moreover from ek_after_count [OF net r(1)] have "int k \<le> out_flow (length capacity) flow source"
    unfolding st by simp
  ultimately show ?thesis using r inv unfolding st by auto
qed

subsection \<open>Sums of rows and columns\<close>

lemma virtual_terminal_bounded:
  assumes vt: "virtual_terminal capacity source sink" and ne: "source \<noteq> sink"
    and src: "source < length capacity" and snk: "sink < length capacity"
  shows "\<not> (inf_edge capacity)\<^sup>*\<^sup>* source sink"
proof
  let ?R = "insert source {e. e < length capacity \<and> capacity ! source ! e = PInf}"
  assume "(inf_edge capacity)\<^sup>*\<^sup>* source sink"
  then have "sink \<in> ?R"
  proof (induction rule: rtranclp_induct)
    case base
    then show ?case by simp
  next
    case (step y z)
    from step.hyps(2) have yz: "y < length capacity" "z < length capacity" "capacity ! y ! z = PInf"
      by (simp_all add: inf_edge_def)
    with vt have "(y = source \<and> z \<noteq> sink \<and> capacity ! z ! sink \<noteq> PInf) \<or>
        (z = sink \<and> y \<noteq> source \<and> capacity ! source ! y \<noteq> PInf)"
      unfolding virtual_terminal_def by blast
    with step.IH yz show ?case by auto
  qed
  with ne snk have "capacity ! source ! sink = PInf" by auto
  with vt src snk show False unfolding virtual_terminal_def by blast
qed

lemma foldl_ext_add_nums:
  "\<forall>x \<in> set xs. \<exists>k. x = Num k \<Longrightarrow>
   foldl ext_add (Num a) xs = Num (a + (\<Sum>x\<leftarrow>xs. case x of Num k \<Rightarrow> k | _ \<Rightarrow> 0))"
proof (induction xs arbitrary: a)
  case Nil
  then show ?case by simp
next
  case (Cons x xs)
  then obtain k where "x = Num k" by auto
  with Cons show ?case by (simp add: add.assoc)
qed

lemma sum_list_nth:
  fixes g :: "'a \<Rightarrow> int"
  shows "(\<Sum>x\<leftarrow>xs. g x) = (\<Sum>i<length xs. g (xs ! i))"
proof -
  have "(\<Sum>x\<leftarrow>xs. g x) = (\<Sum>i = 0..<length xs. map g xs ! i)"
    by (simp add: sum_list_sum_nth)
  also have "\<dots> = (\<Sum>i = 0..<length xs. g (xs ! i))"
    by (rule sum.cong) simp_all
  finally show ?thesis by (simp add: atLeast0LessThan)
qed

lemma psum_row:
  assumes "all_num n flow" "i < n"
  shows "psum (flow ! i) = Num (out_flow n flow i)"
proof -
  from assms have len: "length (flow ! i) = n" by (simp add: all_num_def square_def)
  have nums: "\<forall>x \<in> set (flow ! i). \<exists>k. x = Num k"
    using assms len unfolding all_num_def by (metis in_set_conv_nth)
  have "(\<Sum>x\<leftarrow>flow ! i. case x of Num k \<Rightarrow> k | _ \<Rightarrow> 0) = (\<Sum>j<n. fl flow i j)"
    unfolding sum_list_nth len fl_def ..
  with foldl_ext_add_nums [OF nums, of 0] show ?thesis
    by (simp add: psum_def out_flow_def)
qed

lemma psum_column:
  assumes "all_num n flow" "j < n"
  shows "psum (map (\<lambda>row. row ! j) flow) = Num (\<Sum>i<n. fl flow i j)"
proof -
  let ?col = "map (\<lambda>row. row ! j) flow"
  from assms have len: "length ?col = n" by (simp add: all_num_def square_def)
  have nums: "\<forall>x \<in> set ?col. \<exists>k. x = Num k"
  proof
    fix x assume "x \<in> set ?col"
    then obtain row where "row \<in> set flow" "x = row ! j" by auto
    then obtain i where "i < n" "x = flow ! i ! j"
      using len by (auto simp: in_set_conv_nth)
    with assms show "\<exists>k. x = Num k" unfolding all_num_def by blast
  qed
  have "(\<Sum>x\<leftarrow>?col. case x of Num k \<Rightarrow> k | _ \<Rightarrow> 0) = (\<Sum>i<n. fl flow i j)"
    unfolding sum_list_nth len
    by (rule sum.cong [OF refl]) (use len in \<open>simp add: fl_def\<close>)
  with foldl_ext_add_nums [OF nums, of 0] show ?thesis
    by (simp add: psum_def)
qed

lemma ek_inv_skew:
  assumes inv: "ek_inv capacity source sink (flow, parent, max_flow)"
    and ij: "i < length capacity" "j < length capacity"
  shows "peq (flow ! i ! j) (pneg (flow ! j ! i))"
proof -
  let ?n = "length capacity"
  from inv have an: "all_num ?n flow"
    and skew0: "\<forall>i<?n. \<forall>j<?n. fl flow i j = - fl flow j i"
    unfolding ek_inv_def prod.case by blast+
  have fij: "flow ! i ! j = Num (fl flow i j)" and fji: "flow ! j ! i = Num (fl flow j i)"
    using all_num_nth [OF an] ij by simp_all
  have skew: "fl flow i j = - fl flow j i" using skew0 ij by blast
  show ?thesis unfolding fij fji using skew by (simp add: peq_def)
qed

lemma ek_inv_capacity:
  assumes nn: "nonneg_caps capacity"
    and inv: "ek_inv capacity source sink (flow, parent, max_flow)"
    and ij: "i < length capacity" "j < length capacity"
  shows "ple (flow ! i ! j) (capacity ! i ! j)"
    and "ple (pneg (capacity ! j ! i)) (flow ! i ! j)"
proof -
  let ?n = "length capacity"
  from inv have an: "all_num ?n flow"
    and skew0: "\<forall>i<?n. \<forall>j<?n. fl flow i j = - fl flow j i"
    and cap0: "\<forall>i<?n. \<forall>j<?n. \<forall>k. capacity ! i ! j = Num k \<longrightarrow> fl flow i j \<le> max 0 k"
    unfolding ek_inv_def prod.case by blast+
  have fij: "flow ! i ! j = Num (fl flow i j)"
    using all_num_nth [OF an] ij by simp
  have skew: "fl flow i j = - fl flow j i" using skew0 ij by blast
  from nn ij have cij: "capacity ! i ! j = PInf \<or> (\<exists>k\<ge>0. capacity ! i ! j = Num k)"
    and cji: "capacity ! j ! i = PInf \<or> (\<exists>k\<ge>0. capacity ! j ! i = Num k)"
    unfolding nonneg_caps_def by blast+
  from cij show "ple (flow ! i ! j) (capacity ! i ! j)"
  proof
    assume "capacity ! i ! j = PInf"
    then show ?thesis unfolding fij by (simp add: ple_def)
  next
    assume "\<exists>k\<ge>0. capacity ! i ! j = Num k"
    then obtain k where k: "0 \<le> k" "capacity ! i ! j = Num k" by blast
    with cap0 ij have "fl flow i j \<le> max 0 k" by blast
    with k(1) have "fl flow i j \<le> k" by simp
    then show ?thesis unfolding fij k(2) by (auto simp: ple_def peq_def)
  qed
  from cji show "ple (pneg (capacity ! j ! i)) (flow ! i ! j)"
  proof
    assume "capacity ! j ! i = PInf"
    then show ?thesis unfolding fij by (simp add: ple_def)
  next
    assume "\<exists>k\<ge>0. capacity ! j ! i = Num k"
    then obtain k where k: "0 \<le> k" "capacity ! j ! i = Num k" by blast
    with cap0 ij have "fl flow j i \<le> max 0 k" by blast
    with k(1) skew have "- k \<le> fl flow i j" by simp
    then show ?thesis unfolding fij k(2) by (auto simp: ple_def peq_def)
  qed
qed

subsection \<open>The whole domain of the engine\<close>

lemma ek_step_no_search:
  assumes "square (length capacity) capacity" "source < length capacity"
    and "sink = source \<or> length capacity \<le> sink"
  shows "ek_step capacity source sink (ek_init capacity) = Some (Inr None)"
proof -
  let ?n = "length capacity"
  let ?z = "replicate ?n (replicate ?n (Num 0))"
  have "square ?n ?z" by (simp add: square_def)
  moreover have "res_defined capacity ?z" by (simp add: res_defined_def arith_ok_0)
  ultimately have "\<exists>found parent'.
      bfs capacity ?z source sink (replicate ?n (- 1)) = Inr (found, parent') \<and>
      length parent' = ?n \<and> (found \<longrightarrow> sink < ?n \<and> sink \<noteq> source)"
    using assms(1,2) by (intro bfs_total) simp_all
  with assms(3)
  obtain parent' where "bfs capacity ?z source sink (replicate ?n (- 1)) = Inr (False, parent')"
    by auto
  then show ?thesis by (simp add: ek_step_def ek_init_def Let_def)
qed

lemma ek_after_no_search:
  assumes "square (length capacity) capacity" "source < length capacity"
    and "sink = source \<or> length capacity \<le> sink"
  shows "ek_after capacity source sink k st \<Longrightarrow> k = 0 \<and> st = ek_init capacity"
proof (induction rule: ek_after.induct)
  case ek_after_init
  then show ?case by simp
next
  case (ek_after_step k st st')
  with ek_step_no_search [OF assms] show ?case by simp
qed

lemma ek_after_inv_domain:
  assumes dom: "ek_domain capacity source sink"
    and after: "ek_after capacity source sink k st"
  shows "ek_inv capacity source sink st"
proof (cases "ek_network capacity source sink")
  case True
  from ek_after_inv [OF this after] show ?thesis .
next
  case False
  with dom have a: "square (length capacity) capacity" "source < length capacity"
    "sink = source \<or> length capacity \<le> sink"
    unfolding ek_domain_def by blast+
  from ek_after_no_search [OF a after] ek_inv_init [OF a(2)] show ?thesis by simp
qed

lemma edmonds_karp_domain_result:
  assumes dom: "ek_domain capacity source sink"
  shows "\<exists>k flow parent max_flow.
    ek_after capacity source sink k (flow, parent, max_flow) \<and>
    ek_step capacity source sink (flow, parent, max_flow) = Some (Inr None) \<and>
    edmonds_karp capacity source sink = Some (Inr (max_flow, flow)) \<and>
    ek_inv capacity source sink (flow, parent, max_flow) \<and>
    int k \<le> out_flow (length capacity) flow source"
proof (cases "ek_network capacity source sink")
  case True
  from edmonds_karp_result [OF this] show ?thesis by blast
next
  case False
  let ?n = "length capacity"
  from False dom have a: "square ?n capacity" "source < ?n" "sink = source \<or> ?n \<le> sink"
    unfolding ek_domain_def by blast+
  obtain flow parent max_flow where st: "ek_init capacity = (flow, parent, max_flow)"
    by (cases "ek_init capacity")
  have after: "ek_after capacity source sink 0 (flow, parent, max_flow)"
    using ek_after_init [of capacity source sink] unfolding st .
  have step: "ek_step capacity source sink (flow, parent, max_flow) = Some (Inr None)"
    using ek_step_no_search [OF a] unfolding st .
  have run: "edmonds_karp capacity source sink = Some (Inr (max_flow, flow))"
    unfolding edmonds_karp_def st by (subst ek_loop.simps) (simp add: step)
  have inv: "ek_inv capacity source sink (flow, parent, max_flow)"
    using ek_inv_init [OF a(2), of sink] unfolding st .
  then have "0 \<le> out_flow ?n flow source"
    unfolding ek_inv_def prod.case using a(2) by (metis abs_ge_zero order_trans)
  with after step run inv show ?thesis by (intro exI [of _ 0]) auto
qed

subsection \<open>An example network\<close>

text \<open>
  Three nodes: the virtual source 0 with an unbounded edge to node 1, and an edge of
  capacity 3 from node 1 to the sink 2.
\<close>

lemma dbl_limit_large: "1024 \<le> dbl_limit"
proof -
  have "(2::int) ^ 10 \<le> 2 ^ 970" by (rule power_increasing) simp_all
  moreover have "(2::int) ^ 971 \<le> 2 ^ 1024" by (rule power_increasing) simp_all
  moreover have "(2::int) ^ 971 = 2 * 2 ^ 970" by simp
  moreover have "(2::int) ^ 10 = 1024" by simp
  ultimately show ?thesis unfolding dbl_limit_def by linarith
qed

lemma example_network:
  "ek_network [[Num 0, PInf, Num 0], [Num 0, Num 0, Num 3], [Num 0, Num 0, Num 0]] 0 2"
proof -
  let ?c = "[[Num 0, PInf, Num 0], [Num 0, Num 0, Num 3], [Num 0, Num 0, Num 0]]"
  have vt: "virtual_terminal ?c 0 2"
    unfolding virtual_terminal_def by (auto simp: less_Suc_eq)
  have "\<not> (inf_edge ?c)\<^sup>*\<^sup>* 0 2"
    by (rule virtual_terminal_bounded [OF vt]) simp_all
  moreover have "square (length ?c) ?c" by (simp add: square_def)
  moreover have "\<forall>i<length ?c. \<forall>j<length ?c. ?c ! i ! j = PInf \<or> (\<exists>k. ?c ! i ! j = Num k)"
    by (auto simp: less_Suc_eq)
  moreover have "total_cap ?c = 3" by (simp add: total_cap_def capnum_def)
  then have "total_cap ?c < dbl_limit" using dbl_limit_large by linarith
  ultimately show ?thesis unfolding ek_network_def by simp
qed

lemma example_domain:
  "ek_domain [[Num 0, PInf, Num 0], [Num 0, Num 0, Num 3], [Num 0, Num 0, Num 0]] 0 2"
  using example_network by (simp add: ek_domain_def ek_network_def)

lemma example_nonneg:
  "nonneg_caps [[Num 0, PInf, Num 0], [Num 0, Num 0, Num 3], [Num 0, Num 0, Num 0]]"
  by (auto simp: nonneg_caps_def less_Suc_eq)

lemma example_run:
  "edmonds_karp [[Num 0, PInf, Num 0], [Num 0, Num 0, Num 3], [Num 0, Num 0, Num 0]] 0 2
     = Some (Inr (Num 3, [[Num 0, Num 3, Num 0], [Num (- 3), Num 0, Num 3], [Num 0, Num (- 3), Num 0]]))"
  by code_simp

lemma example_after:
  "ek_after [[Num 0, PInf, Num 0], [Num 0, Num 0, Num 3], [Num 0, Num 0, Num 0]] 0 2 1
     ([[Num 0, Num 3, Num 0], [Num (- 3), Num 0, Num 3], [Num 0, Num (- 3), Num 0]], [- 1, 0, 1], Num 3)"
proof -
  let ?c = "[[Num 0, PInf, Num 0], [Num 0, Num 0, Num 3], [Num 0, Num 0, Num 0]]"
  have "ek_step ?c 0 2 (ek_init ?c) = Some (Inr (Some
      ([[Num 0, Num 3, Num 0], [Num (- 3), Num 0, Num 3], [Num 0, Num (- 3), Num 0]], [- 1, 0, 1], Num 3)))"
    by code_simp
  from ek_after_step [OF ek_after_init this] show ?thesis by simp
qed

subsection \<open>The capacity of a cut\<close>





section \<open>Claims\<close>

text \<open>
  C7. A real edge with a finite capacity less than or equal to zero makes the
  construction of the capacity matrix fail. The docstring of
  \<^verbatim>\<open>build_capacity_matrix\<close> promises a \<^verbatim>\<open>ValueError\<close> for it, yet the
  body stores the weight without looking at it: on the graph with the single edge
  \<open>a \<rightarrow> b\<close> of capacity 0 it returns the matrix, whose entry for the edge is the
  same 0 that stands for an absent edge.
\<close>

theorem build_capacity_matrix_zero_capacity_accepted:
  "build_capacity_matrix [(''a'', ''b'', Num 0)] [(''a'', 0), (''b'', 1)]
     = Inr [[Num 0, Num 0], [Num 0, Num 0]]"
  by (simp add: build_capacity_matrix_def mat_set_def py_index_def py_set_def)

text \<open>
  C8, as stated: the engine called with equal or out-of-range endpoints fails. It does
  not: with source and sink both 1 on a two-node matrix it returns the value 0 and the
  zero flow.
\<close>

theorem edmonds_karp_equal_endpoints_counterexample:
  "edmonds_karp [[Num 0, Num 3], [Num 0, Num 0]] 1 1
     = Some (Inr (Num 0, [[Num 0, Num 0], [Num 0, Num 0]]))"
  by code_simp

text \<open>
  C8, amended. The engine validates nothing. On a square matrix and a valid source, a
  sink equal to the source or beyond the matrix makes the first search fail, and the
  engine returns the value 0 with the all-zero flow matrix; a source beyond the matrix
  raises \<^verbatim>\<open>IndexError\<close> at the first write to \<^verbatim>\<open>visited\<close>, before any search
  iteration. The capacity matrix is only ever read: no function of the engine returns or
  updates it.
\<close>

theorem edmonds_karp_unvalidated_endpoints:
  "(square (length capacity) capacity \<and> source < length capacity \<and>
      (sink = source \<or> length capacity \<le> sink) \<longrightarrow>
      edmonds_karp capacity source sink =
        Some (Inr (Num 0, replicate (length capacity) (replicate (length capacity) (Num 0)))))
   \<and> (length capacity \<le> source \<longrightarrow>
      edmonds_karp capacity source sink = Some (Inl IndexError))"
  using edmonds_karp_no_search [of capacity source sink]
    edmonds_karp_source_out_of_range [of capacity source sink]
  by blast

theorem edmonds_karp_unvalidated_endpoints_witness:
  "edmonds_karp [[Num 0, Num 3], [Num 0, Num 0]] 0 0
     = Some (Inr (Num 0, [[Num 0, Num 0], [Num 0, Num 0]]))
   \<and> edmonds_karp [[Num 0, Num 3], [Num 0, Num 0]] 0 2
     = Some (Inr (Num 0, [[Num 0, Num 0], [Num 0, Num 0]]))
   \<and> edmonds_karp [[Num 0, Num 3], [Num 0, Num 0]] 2 1 = Some (Inl IndexError)"
proof -
  let ?c = "[[Num 0, Num 3], [Num 0, Num 0]]"
  have sq: "square (length ?c) ?c" by (simp add: square_def)
  have z: "replicate (length ?c) (replicate (length ?c) (Num 0)) = [[Num 0, Num 0], [Num 0, Num 0]]"
    by (simp add: numeral_2_eq_2)
  from edmonds_karp_unvalidated_endpoints [of ?c 0 0] sq
  have a: "edmonds_karp ?c 0 0 = Some (Inr (Num 0, [[Num 0, Num 0], [Num 0, Num 0]]))"
    unfolding z by simp
  from edmonds_karp_unvalidated_endpoints [of ?c 0 2] sq
  have b: "edmonds_karp ?c 0 2 = Some (Inr (Num 0, [[Num 0, Num 0], [Num 0, Num 0]]))"
    unfolding z by simp
  from edmonds_karp_unvalidated_endpoints [of ?c 2 1]
  have c: "edmonds_karp ?c 2 1 = Some (Inl IndexError)"
    by simp
  from a b c show ?thesis by blast
qed

text \<open>
  C9. On a flow matrix of integers, such as the engine returns, and names that resolve to
  its indices, the flow table is the attribution table of the specification: each pair
  gets the sum of the strictly positive \<open>min(flow[entry][w], flow[w][exit])\<close> over the
  intermediate nodes \<open>w\<close>, and exactly the pairs with a strictly positive sum are
  reported, in the order of the loops. No addition can raise \<^verbatim>\<open>OverflowError\<close>
  there, since no float meets an integer.
\<close>

theorem print_flow_table_attribution:
  assumes "all_num n flow"
    and "\<forall>t \<in> set terminals. resolves node_indices n t"
    and "\<forall>w \<in> set warehouses. resolves node_indices n w"
    and "\<forall>k \<in> set store_range. resolves node_indices n (store_name k)"
  shows "print_flow_table store_name flow node_indices terminals warehouses store_range =
      Inr (attribution_table store_name flow node_indices terminals warehouses store_range)"
  using print_flow_table_rows [OF assms(1,3,4,2)] .

theorem print_flow_table_attribution_witness:
  "print_flow_table (\<lambda>k. (''M'', k))
     [[Num 0, Num 5, Num 0], [Num (- 5), Num 0, Num 3], [Num 0, Num (- 3), Num 0]]
     [((''T'', 1), 0), ((''W'', 1), 1), ((''M'', 1), 2)] [(''T'', 1)] [(''W'', 1)] [1]
   = Inr [((''T'', 1), (''M'', 1), Num 3)]"
proof -
  let ?f = "[[Num 0, Num 5, Num 0], [Num (- 5), Num 0, Num 3], [Num 0, Num (- 3), Num 0]]"
  let ?ni = "[((''T'', 1::int), 0::int), ((''W'', 1), 1), ((''M'', 1), 2)]"
  let ?name = "\<lambda>k::int. (''M'', k)"
  have an: "all_num 3 ?f"
    by (auto simp: all_num_def square_def numeral_3_eq_3 less_Suc_eq)
  have t: "\<forall>t \<in> set [(''T'', 1::int)]. resolves ?ni 3 t"
    by (simp add: resolves_def)
  have w: "\<forall>w \<in> set [(''W'', 1::int)]. resolves ?ni 3 w"
    by (simp add: resolves_def)
  have k: "\<forall>k \<in> set [1::int]. resolves ?ni 3 (?name k)"
    by (simp add: resolves_def)
  have tab: "attribution_table ?name ?f ?ni [(''T'', 1)] [(''W'', 1)] [1]
      = [((''T'', 1), (''M'', 1), Num 3)]"
    by (simp add: attribution_table_def attributed_def index_of_def pymin_def pgt0_def)
  from print_flow_table_attribution [OF an t w k] show ?thesis
    unfolding tab .
qed

text \<open>
  C6. On square matrices whose residual capacities can all be computed, a valid source and
  a sink different from it, the search returns \<open>True\<close> exactly when the sink is reachable
  from the source through residual edges (pairs with
  \<^verbatim>\<open>capacity[i][j] - flow[i][j] > 0\<close>). When it does, the recorded predecessors trace,
  from the sink back to the source, a path of residual edges, and no path of residual edges
  from the source to the sink has fewer nodes. The search stops at the discovery of the
  sink: the only entries of \<^verbatim>\<open>parent\<close> it has changed are those of the sink and of nodes
  that come before the sink in the breadth-first order of the recorded tree. A node that a
  longer search would discover after the sink keeps the entry it had.
\<close>

theorem bfs_shortest_augmenting_path:
  assumes "square (length capacity) capacity" and "square (length capacity) flow"
    and "res_defined capacity flow"
    and "source < length capacity" and "length parent = length capacity"
    and "source \<noteq> sink"
  shows "\<exists>found parent'.
     bfs capacity flow source sink parent = Inr (found, parent') \<and>
     (found \<longleftrightarrow> (res_edge capacity flow)\<^sup>*\<^sup>* source sink) \<and>
     (found \<longrightarrow>
        (\<exists>ws. hd ws = sink \<and> last ws = source \<and> parent_chain parent' ws \<and>
           res_path capacity flow (rev ws) \<and>
           (\<forall>ps. res_path capacity flow ps \<and> hd ps = source \<and> last ps = sink \<longrightarrow>
              length ws \<le> length ps)) \<and>
        (\<forall>v<length capacity. parent' ! v \<noteq> parent ! v \<longrightarrow>
           v = sink \<or> before parent' source v sink))"
proof -
  from bfs_correct [OF assms] obtain found parent' where
    run: "bfs capacity flow source sink parent = Inr (found, parent')"
    and f: "found \<longrightarrow> bfs_found capacity flow source sink parent'"
    and nf: "\<not> found \<longrightarrow> bfs_closed capacity flow source sink"
    by blast
  have path: "\<exists>ws. hd ws = sink \<and> last ws = source \<and> parent_chain parent' ws \<and>
           res_path capacity flow (rev ws) \<and>
           (\<forall>ps. res_path capacity flow ps \<and> hd ps = source \<and> last ps = sink \<longrightarrow>
              length ws \<le> length ps)" if found
  proof -
    from f that bfs_found_path obtain ws where
      ws: "hd ws = sink" "last ws = source" "parent_chain parent' ws"
        "successively (\<lambda>a b. res_edge capacity flow b a) ws"
        "\<forall>ps. res_path capacity flow ps \<and> hd ps = source \<and> last ps = sink \<longrightarrow>
           length ws \<le> length ps"
      by blast
    from ws(3) have "ws \<noteq> []" by auto
    with ws(4) have "res_path capacity flow (rev ws)" by (simp add: res_path_def)
    with ws show ?thesis by blast
  qed
  have reach: "(res_edge capacity flow)\<^sup>*\<^sup>* source sink" if found
  proof -
    from path [OF that] obtain ws where
      ws: "hd ws = sink" "last ws = source" "res_path capacity flow (rev ws)" "ws \<noteq> []"
      by (auto simp: res_path_def)
    then obtain x ps where xp: "rev ws = x # ps" by (cases "rev ws") auto
    with ws have "x = source" "last (x # ps) = sink"
      by (metis hd_rev list.sel(1), metis last_rev)
    with res_path_reach [of capacity flow x ps] ws(3) xp show ?thesis
      by (simp add: res_path_def)
  qed
  have stop: "\<forall>v<length capacity. parent' ! v \<noteq> parent ! v \<longrightarrow>
      v = sink \<or> before parent' source v sink" if found
  proof (intro allI impI)
    fix v assume v: "v < length capacity" "parent' ! v \<noteq> parent ! v"
    from run that have r: "bfs capacity flow source sink parent = Inr (True, parent')" by simp
    show "v = sink \<or> before parent' source v sink"
      using bfs_early_stop [OF assms(1-5) r v] by blast
  qed
  from run nf reach path stop bfs_closed_unreachable show ?thesis by blast
qed

text \<open>
  Four nodes with the residual edges \<open>0 \<rightarrow> 1\<close>, \<open>0 \<rightarrow> 3\<close> and \<open>1 \<rightarrow> 2\<close>, source 0 and
  sink 3. The scan of node 0 discovers node 1 and then the sink, and the search returns:
  node 2, which the scan of node 1 would discover, keeps its entry \<open>-1\<close>. Node 1 comes
  before the sink in the recorded tree.
\<close>

theorem bfs_shortest_augmenting_path_witness:
  "bfs [[Num 0, Num 1, Num 0, Num 1], [Num 0, Num 0, Num 1, Num 0],
        [Num 0, Num 0, Num 0, Num 0], [Num 0, Num 0, Num 0, Num 0]]
       [[Num 0, Num 0, Num 0, Num 0], [Num 0, Num 0, Num 0, Num 0],
        [Num 0, Num 0, Num 0, Num 0], [Num 0, Num 0, Num 0, Num 0]] 0 3 [- 1, - 1, - 1, - 1]
     = Inr (True, [- 1, 0, - 1, 0]) \<and>
   (res_edge [[Num 0, Num 1, Num 0, Num 1], [Num 0, Num 0, Num 1, Num 0],
        [Num 0, Num 0, Num 0, Num 0], [Num 0, Num 0, Num 0, Num 0]]
       [[Num 0, Num 0, Num 0, Num 0], [Num 0, Num 0, Num 0, Num 0],
        [Num 0, Num 0, Num 0, Num 0], [Num 0, Num 0, Num 0, Num 0]])\<^sup>*\<^sup>* 0 3 \<and>
   before [- 1, 0, - 1, 0] 0 1 3"
proof -
  let ?c = "[[Num 0, Num 1, Num 0, Num 1], [Num 0, Num 0, Num 1, Num 0],
        [Num 0, Num 0, Num 0, Num 0], [Num 0, Num 0, Num 0, Num 0]]"
  let ?f = "[[Num 0, Num 0, Num 0, Num 0], [Num 0, Num 0, Num 0, Num 0],
        [Num 0, Num 0, Num 0, Num 0], [Num 0, Num 0, Num 0, Num 0]]"
  let ?p = "[- 1, - 1, - 1, - 1 :: int]"
  have e: "bfs ?c ?f 0 3 ?p = Inr (True, [- 1, 0, - 1, 0])" by code_simp
  have h: "square (length ?c) ?c" "square (length ?c) ?f" "res_defined ?c ?f"
    "(0::nat) < length ?c" "length ?p = length ?c" "(0::nat) \<noteq> 3"
    by (auto simp: square_def res_defined_def less_Suc_eq)
  from bfs_shortest_augmenting_path [OF h] obtain found parent' where
    run: "bfs ?c ?f 0 3 ?p = Inr (found, parent')"
    and r: "found \<longleftrightarrow> (res_edge ?c ?f)\<^sup>*\<^sup>* 0 3"
    and s: "found \<longrightarrow> (\<forall>v<length ?c. parent' ! v \<noteq> ?p ! v \<longrightarrow>
           v = 3 \<or> before parent' 0 v 3)"
    by blast
  from run [unfolded e] have fp: "found" "parent' = [- 1, 0, - 1, 0]" by simp_all
  from s fp have "\<forall>v<length ?c. [- 1, 0, - 1, 0 :: int] ! v \<noteq> ?p ! v \<longrightarrow>
      v = 3 \<or> before [- 1, 0, - 1, 0] 0 v 3"
    by simp
  moreover have "(1::nat) < length ?c" "[- 1, 0, - 1, 0 :: int] ! 1 \<noteq> ?p ! 1" "(1::nat) \<noteq> 3"
    by simp_all
  ultimately have "before [- 1, 0, - 1, 0] 0 1 3" by blast
  with e r fp(1) show ?thesis by blast
qed



text \<open>
  C4, as stated: the flow matrix is skew-symmetric after every augmentation and in the
  result, whatever the capacity matrix. On six nodes with the unbounded edges
  \<open>0 \<rightarrow> 1\<close>, \<open>0 \<rightarrow> 3\<close>, \<open>1 \<rightarrow> 2\<close>, \<open>1 \<rightarrow> 4\<close>, \<open>2 \<rightarrow> 5\<close>, \<open>3 \<rightarrow> 2\<close> and \<open>4 \<rightarrow> 5\<close>, source 0 and
  sink 5, the first augmentation pushes \<^verbatim>\<open>inf\<close> along \<open>0, 1, 2, 5\<close> and the second along
  \<open>0, 3, 2, 1, 4, 5\<close>, back over the pair \<open>(1, 2)\<close>: \<^verbatim>\<open>flow[2][1]\<close> becomes
  \<^verbatim>\<open>-inf + inf\<close> and \<^verbatim>\<open>flow[1][2]\<close> becomes \<^verbatim>\<open>inf - inf\<close>, both NaN, and
  \<^verbatim>\<open>flow[1][2] == -flow[2][1]\<close> is false in the matrix the engine returns.
\<close>

theorem flow_skew_symmetry_counterexample:
  "edmonds_karp
     [[Num 0, PInf, Num 0, PInf, Num 0, Num 0], [Num 0, Num 0, PInf, Num 0, PInf, Num 0],
      [Num 0, Num 0, Num 0, Num 0, Num 0, PInf], [Num 0, Num 0, PInf, Num 0, Num 0, Num 0],
      [Num 0, Num 0, Num 0, Num 0, Num 0, PInf], [Num 0, Num 0, Num 0, Num 0, Num 0, Num 0]] 0 5
   = Some (Inr (PInf,
     [[Num 0, PInf, Num 0, PInf, Num 0, Num 0], [NInf, Num 0, NaN, Num 0, PInf, Num 0],
      [Num 0, NaN, Num 0, NInf, Num 0, PInf], [NInf, Num 0, PInf, Num 0, Num 0, Num 0],
      [Num 0, NInf, Num 0, Num 0, Num 0, PInf], [Num 0, Num 0, NInf, Num 0, NInf, Num 0]]))
   \<and> \<not> peq ([[Num 0, PInf, Num 0, PInf, Num 0, Num 0], [NInf, Num 0, NaN, Num 0, PInf, Num 0],
      [Num 0, NaN, Num 0, NInf, Num 0, PInf], [NInf, Num 0, PInf, Num 0, Num 0, Num 0],
      [Num 0, NInf, Num 0, Num 0, Num 0, PInf], [Num 0, Num 0, NInf, Num 0, NInf, Num 0]] ! 1 ! 2)
     (pneg ([[Num 0, PInf, Num 0, PInf, Num 0, Num 0], [NInf, Num 0, NaN, Num 0, PInf, Num 0],
      [Num 0, NaN, Num 0, NInf, Num 0, PInf], [NInf, Num 0, PInf, Num 0, Num 0, Num 0],
      [Num 0, NInf, Num 0, Num 0, Num 0, PInf], [Num 0, Num 0, NInf, Num 0, NInf, Num 0]] ! 2 ! 1))"
proof -
  have "edmonds_karp
     [[Num 0, PInf, Num 0, PInf, Num 0, Num 0], [Num 0, Num 0, PInf, Num 0, PInf, Num 0],
      [Num 0, Num 0, Num 0, Num 0, Num 0, PInf], [Num 0, Num 0, PInf, Num 0, Num 0, Num 0],
      [Num 0, Num 0, Num 0, Num 0, Num 0, PInf], [Num 0, Num 0, Num 0, Num 0, Num 0, Num 0]] 0 5
   = Some (Inr (PInf,
     [[Num 0, PInf, Num 0, PInf, Num 0, Num 0], [NInf, Num 0, NaN, Num 0, PInf, Num 0],
      [Num 0, NaN, Num 0, NInf, Num 0, PInf], [NInf, Num 0, PInf, Num 0, Num 0, Num 0],
      [Num 0, NInf, Num 0, Num 0, Num 0, PInf], [Num 0, Num 0, NInf, Num 0, NInf, Num 0]]))"
    by code_simp
  moreover have "\<not> peq ([[Num 0, PInf, Num 0, PInf, Num 0, Num 0], [NInf, Num 0, NaN, Num 0, PInf, Num 0],
      [Num 0, NaN, Num 0, NInf, Num 0, PInf], [NInf, Num 0, PInf, Num 0, Num 0, Num 0],
      [Num 0, NInf, Num 0, Num 0, Num 0, PInf], [Num 0, Num 0, NInf, Num 0, NInf, Num 0]] ! 1 ! 2)
     (pneg ([[Num 0, PInf, Num 0, PInf, Num 0, Num 0], [NInf, Num 0, NaN, Num 0, PInf, Num 0],
      [Num 0, NaN, Num 0, NInf, Num 0, PInf], [NInf, Num 0, PInf, Num 0, Num 0, Num 0],
      [Num 0, NInf, Num 0, Num 0, Num 0, PInf], [Num 0, Num 0, NInf, Num 0, NInf, Num 0]] ! 2 ! 1))"
    by (simp add: peq_def)
  ultimately show ?thesis by (rule conjI)
qed

text \<open>
  C4, amended. On the domain of the engine (as for C2, with integer capacities of either
  sign) the flow matrix is skew-symmetric in every state the outer loop goes through, that
  is after each augmentation, and in the matrix the engine returns:
  \<^verbatim>\<open>flow[i][j] == -flow[j][i]\<close> for all valid indices.
\<close>

theorem flow_skew_symmetry:
  assumes "ek_domain capacity source sink"
    and "i < length capacity" and "j < length capacity"
  shows "(ek_after capacity source sink k (flow, parent, max_flow) \<longrightarrow>
            peq (flow ! i ! j) (pneg (flow ! j ! i))) \<and>
    (\<exists>value final. edmonds_karp capacity source sink = Some (Inr (value, final)) \<and>
       peq (final ! i ! j) (pneg (final ! j ! i)))"
proof -
  from edmonds_karp_domain_result [OF assms(1)] obtain final parent' "value" where
    r: "edmonds_karp capacity source sink = Some (Inr (value, final))"
      "ek_inv capacity source sink (final, parent', value)"
    by blast
  from ek_inv_skew [OF r(2) assms(2,3)] r(1)
  have "\<exists>value final. edmonds_karp capacity source sink = Some (Inr (value, final)) \<and>
       peq (final ! i ! j) (pneg (final ! j ! i))"
    by blast
  moreover have "peq (flow ! i ! j) (pneg (flow ! j ! i))"
    if "ek_after capacity source sink k (flow, parent, max_flow)"
    by (rule ek_inv_skew [OF ek_after_inv_domain [OF assms(1) that] assms(2,3)])
  ultimately show ?thesis by blast
qed

theorem flow_skew_symmetry_witness:
  "peq ([[Num 0, Num 3, Num 0], [Num (- 3), Num 0, Num 3], [Num 0, Num (- 3), Num 0]] ! 0 ! 1)
     (pneg ([[Num 0, Num 3, Num 0], [Num (- 3), Num 0, Num 3], [Num 0, Num (- 3), Num 0]] ! 1 ! 0))"
proof -
  let ?c = "[[Num 0, PInf, Num 0], [Num 0, Num 0, Num 3], [Num 0, Num 0, Num 0]]"
  have "(0::nat) < length ?c" "(1::nat) < length ?c" by simp_all
  from flow_skew_symmetry [OF example_domain this, where k = 1 and parent = "[- 1, 0, 1]"
      and max_flow = "Num 3" and flow = "[[Num 0, Num 3, Num 0], [Num (- 3), Num 0, Num 3], [Num 0, Num (- 3), Num 0]]"]
  have "ek_after ?c 0 2 1 ([[Num 0, Num 3, Num 0], [Num (- 3), Num 0, Num 3], [Num 0, Num (- 3), Num 0]], [- 1, 0, 1], Num 3) \<longrightarrow>
      peq ([[Num 0, Num 3, Num 0], [Num (- 3), Num 0, Num 3], [Num 0, Num (- 3), Num 0]] ! 0 ! 1) (pneg ([[Num 0, Num 3, Num 0], [Num (- 3), Num 0, Num 3], [Num 0, Num (- 3), Num 0]] ! 1 ! 0))"
    by (rule conjunct1)
  then show ?thesis using example_after by (rule mp)
qed

text \<open>
  C5, as stated: every pair with a finite capacity has
  \<^verbatim>\<open>flow[i][j] <= capacity[i][j]\<close>, whatever the capacity matrix. On the six nodes of C4
  with an edge \<open>2 \<rightarrow> 1\<close> of capacity 3 added, the two augmentations are the same and leave
  \<^verbatim>\<open>flow[2][1]\<close> NaN, which is not \<^verbatim>\<open><= 3\<close>. And a negative capacity, which
  \<^verbatim>\<open>build_capacity_matrix\<close> stores as it finds it, is below the flow 0 of its pair.
\<close>

theorem flow_respects_capacity_counterexample:
  "edmonds_karp
     [[Num 0, PInf, Num 0, PInf, Num 0, Num 0], [Num 0, Num 0, PInf, Num 0, PInf, Num 0],
      [Num 0, Num 3, Num 0, Num 0, Num 0, PInf], [Num 0, Num 0, PInf, Num 0, Num 0, Num 0],
      [Num 0, Num 0, Num 0, Num 0, Num 0, PInf], [Num 0, Num 0, Num 0, Num 0, Num 0, Num 0]] 0 5
   = Some (Inr (PInf,
     [[Num 0, PInf, Num 0, PInf, Num 0, Num 0], [NInf, Num 0, NaN, Num 0, PInf, Num 0],
      [Num 0, NaN, Num 0, NInf, Num 0, PInf], [NInf, Num 0, PInf, Num 0, Num 0, Num 0],
      [Num 0, NInf, Num 0, Num 0, Num 0, PInf], [Num 0, Num 0, NInf, Num 0, NInf, Num 0]]))
   \<and> \<not> ple ([[Num 0, PInf, Num 0, PInf, Num 0, Num 0], [NInf, Num 0, NaN, Num 0, PInf, Num 0],
      [Num 0, NaN, Num 0, NInf, Num 0, PInf], [NInf, Num 0, PInf, Num 0, Num 0, Num 0],
      [Num 0, NInf, Num 0, Num 0, Num 0, PInf], [Num 0, Num 0, NInf, Num 0, NInf, Num 0]] ! 2 ! 1)
     ([[Num 0, PInf, Num 0, PInf, Num 0, Num 0], [Num 0, Num 0, PInf, Num 0, PInf, Num 0],
      [Num 0, Num 3, Num 0, Num 0, Num 0, PInf], [Num 0, Num 0, PInf, Num 0, Num 0, Num 0],
      [Num 0, Num 0, Num 0, Num 0, Num 0, PInf], [Num 0, Num 0, Num 0, Num 0, Num 0, Num 0]] ! 2 ! 1)
   \<and> edmonds_karp [[Num 0, Num (- 1)], [Num 0, Num 0]] 0 1
     = Some (Inr (Num 0, [[Num 0, Num 0], [Num 0, Num 0]]))
   \<and> \<not> ple ([[Num 0, Num 0], [Num 0, Num 0]] ! 0 ! 1)
     ([[Num 0, Num (- 1)], [Num 0, Num 0]] ! 0 ! 1)"
proof -
  have "edmonds_karp
     [[Num 0, PInf, Num 0, PInf, Num 0, Num 0], [Num 0, Num 0, PInf, Num 0, PInf, Num 0],
      [Num 0, Num 3, Num 0, Num 0, Num 0, PInf], [Num 0, Num 0, PInf, Num 0, Num 0, Num 0],
      [Num 0, Num 0, Num 0, Num 0, Num 0, PInf], [Num 0, Num 0, Num 0, Num 0, Num 0, Num 0]] 0 5
   = Some (Inr (PInf,
     [[Num 0, PInf, Num 0, PInf, Num 0, Num 0], [NInf, Num 0, NaN, Num 0, PInf, Num 0],
      [Num 0, NaN, Num 0, NInf, Num 0, PInf], [NInf, Num 0, PInf, Num 0, Num 0, Num 0],
      [Num 0, NInf, Num 0, Num 0, Num 0, PInf], [Num 0, Num 0, NInf, Num 0, NInf, Num 0]]))"
    by code_simp
  moreover have "\<not> ple ([[Num 0, PInf, Num 0, PInf, Num 0, Num 0], [NInf, Num 0, NaN, Num 0, PInf, Num 0],
      [Num 0, NaN, Num 0, NInf, Num 0, PInf], [NInf, Num 0, PInf, Num 0, Num 0, Num 0],
      [Num 0, NInf, Num 0, Num 0, Num 0, PInf], [Num 0, Num 0, NInf, Num 0, NInf, Num 0]] ! 2 ! 1)
     ([[Num 0, PInf, Num 0, PInf, Num 0, Num 0], [Num 0, Num 0, PInf, Num 0, PInf, Num 0],
      [Num 0, Num 3, Num 0, Num 0, Num 0, PInf], [Num 0, Num 0, PInf, Num 0, Num 0, Num 0],
      [Num 0, Num 0, Num 0, Num 0, Num 0, PInf], [Num 0, Num 0, Num 0, Num 0, Num 0, Num 0]] ! 2 ! 1)"
    by (simp add: ple_def peq_def)
  moreover have "edmonds_karp [[Num 0, Num (- 1)], [Num 0, Num 0]] 0 1
     = Some (Inr (Num 0, [[Num 0, Num 0], [Num 0, Num 0]]))"
    by code_simp
  moreover have "\<not> ple ([[Num 0, Num 0], [Num 0, Num 0]] ! 0 ! 1)
     ([[Num 0, Num (- 1)], [Num 0, Num 0]] ! 0 ! 1)"
    by (simp add: ple_def peq_def)
  ultimately show ?thesis by blast
qed

text \<open>
  C5, amended. On the domain of the engine (as for C2) and with no negative capacity, in
  every state the outer loop goes through and in the matrix the engine returns, the flow
  of a pair does not exceed its capacity and is not below the negated capacity of the
  reverse pair: \<^verbatim>\<open>flow[i][j] <= capacity[i][j]\<close> and
  \<^verbatim>\<open>-capacity[j][i] <= flow[i][j]\<close>, for finite and for unbounded capacities alike.
\<close>

theorem flow_respects_capacity:
  assumes "ek_domain capacity source sink" and "nonneg_caps capacity"
    and "i < length capacity" and "j < length capacity"
  shows "(ek_after capacity source sink k (flow, parent, max_flow) \<longrightarrow>
            ple (flow ! i ! j) (capacity ! i ! j) \<and>
            ple (pneg (capacity ! j ! i)) (flow ! i ! j)) \<and>
    (\<exists>value final. edmonds_karp capacity source sink = Some (Inr (value, final)) \<and>
       ple (final ! i ! j) (capacity ! i ! j) \<and>
       ple (pneg (capacity ! j ! i)) (final ! i ! j))"
proof -
  from edmonds_karp_domain_result [OF assms(1)] obtain final parent' "value" where
    r: "edmonds_karp capacity source sink = Some (Inr (value, final))"
      "ek_inv capacity source sink (final, parent', value)"
    by blast
  from ek_inv_capacity [OF assms(2) r(2) assms(3,4)] r(1)
  have "\<exists>value final. edmonds_karp capacity source sink = Some (Inr (value, final)) \<and>
       ple (final ! i ! j) (capacity ! i ! j) \<and>
       ple (pneg (capacity ! j ! i)) (final ! i ! j)"
    by blast
  moreover have "ple (flow ! i ! j) (capacity ! i ! j) \<and>
            ple (pneg (capacity ! j ! i)) (flow ! i ! j)"
    if "ek_after capacity source sink k (flow, parent, max_flow)"
    using ek_inv_capacity [OF assms(2) ek_after_inv_domain [OF assms(1) that] assms(3,4)] ..
  ultimately show ?thesis by blast
qed

theorem flow_respects_capacity_witness:
  "ple ([[Num 0, Num 3, Num 0], [Num (- 3), Num 0, Num 3], [Num 0, Num (- 3), Num 0]] ! 1 ! 2)
     ([[Num 0, PInf, Num 0], [Num 0, Num 0, Num 3], [Num 0, Num 0, Num 0]] ! 1 ! 2)
   \<and> ple (pneg ([[Num 0, PInf, Num 0], [Num 0, Num 0, Num 3], [Num 0, Num 0, Num 0]] ! 2 ! 1))
     ([[Num 0, Num 3, Num 0], [Num (- 3), Num 0, Num 3], [Num 0, Num (- 3), Num 0]] ! 1 ! 2)"
proof -
  let ?c = "[[Num 0, PInf, Num 0], [Num 0, Num 0, Num 3], [Num 0, Num 0, Num 0]]"
  have "(1::nat) < length ?c" "(2::nat) < length ?c" by simp_all
  from flow_respects_capacity [OF example_domain example_nonneg this, where k = 1
      and parent = "[- 1, 0, 1]" and max_flow = "Num 3" and flow = "[[Num 0, Num 3, Num 0], [Num (- 3), Num 0, Num 3], [Num 0, Num (- 3), Num 0]]"]
  have "ek_after ?c 0 2 1 ([[Num 0, Num 3, Num 0], [Num (- 3), Num 0, Num 3], [Num 0, Num (- 3), Num 0]], [- 1, 0, 1], Num 3) \<longrightarrow>
      ple ([[Num 0, Num 3, Num 0], [Num (- 3), Num 0, Num 3], [Num 0, Num (- 3), Num 0]] ! 1 ! 2) (?c ! 1 ! 2) \<and> ple (pneg (?c ! 2 ! 1)) ([[Num 0, Num 3, Num 0], [Num (- 3), Num 0, Num 3], [Num 0, Num (- 3), Num 0]] ! 1 ! 2)"
    by (rule conjunct1)
  then show ?thesis using example_after by (rule mp)
qed

text \<open>
  C10, as stated: for every capacity matrix whose finite entries are integers the engine
  returns an integer value and an integer flow. The two-node matrix with the single edge
  \<open>0 \<rightarrow> 1\<close> of unbounded capacity has only integer finite entries, and on it the engine
  returns the float infinity as the value, with the flow entries \<open>inf\<close> and \<open>-inf\<close>:
  the bottleneck of a path of unbounded edges is \<^verbatim>\<open>float("inf")\<close> itself. And with
  an unbounded edge \<open>0 \<rightarrow> 1\<close> before an edge \<open>1 \<rightarrow> 2\<close> of capacity \<^verbatim>\<open>2**1024\<close> the engine
  returns nothing: after the first augmentation the second search computes
  \<^verbatim>\<open>inf - 2**1024\<close>, which raises \<^verbatim>\<open>OverflowError\<close>.
\<close>

theorem integral_flow_counterexample:
  "edmonds_karp [[Num 0, PInf], [Num 0, Num 0]] 0 1
     = Some (Inr (PInf, [[Num 0, PInf], [NInf, Num 0]]))
   \<and> edmonds_karp [[Num 0, PInf, Num 0], [Num 0, Num 0, Num (2 ^ 1024)], [Num 0, Num 0, Num 0]] 0 2
     = Some (Inl OverflowError)"
proof -
  have "edmonds_karp [[Num 0, PInf], [Num 0, Num 0]] 0 1
     = Some (Inr (PInf, [[Num 0, PInf], [NInf, Num 0]]))"
    by code_simp
  moreover have "edmonds_karp
      [[Num 0, PInf, Num 0], [Num 0, Num 0, Num (2 ^ 1024)], [Num 0, Num 0, Num 0]] 0 2
     = Some (Inl OverflowError)"
    by code_simp
  ultimately show ?thesis by (rule conjI)
qed

text \<open>
  C10, amended. On the domain of the engine (a square matrix and a valid source; for a sink
  that a search can find, entries that are integers of either sign or the unbounded
  sentinel, no path of unbounded edges from the source to the sink, and, beside an
  unbounded edge, positive finite capacities whose sum a double can hold) the engine
  returns an integer value and a flow matrix whose entries are all integers: no infinity
  and no NaN. A sink equal to the source or beyond the matrix is in the domain, whatever
  the entries.
\<close>

theorem integral_flow:
  assumes "ek_domain capacity source sink"
  shows "\<exists>m flow. edmonds_karp capacity source sink = Some (Inr (Num m, flow)) \<and>
    (\<forall>i<length capacity. \<forall>j<length capacity. \<exists>x. flow ! i ! j = Num x)"
proof -
  from edmonds_karp_domain_result [OF assms] obtain flow parent max_flow where
    r: "edmonds_karp capacity source sink = Some (Inr (max_flow, flow))"
      "ek_inv capacity source sink (flow, parent, max_flow)"
    by blast
  from r(2) have "max_flow = Num (out_flow (length capacity) flow source)"
    and "all_num (length capacity) flow"
    unfolding ek_inv_def prod.case by blast+
  with r(1) show ?thesis unfolding all_num_def by blast
qed

theorem integral_flow_witness:
  "\<exists>m flow.
     edmonds_karp [[Num 0, PInf, Num 0], [Num 0, Num 0, Num 3], [Num 0, Num 0, Num 0]] 0 2
       = Some (Inr (Num m, flow)) \<and>
     (\<exists>x. flow ! 0 ! 1 = Num x)"
proof -
  let ?c = "[[Num 0, PInf, Num 0], [Num 0, Num 0, Num 3], [Num 0, Num 0, Num 0]]"
  from integral_flow [OF example_domain] obtain m flow where
    r: "edmonds_karp ?c 0 2 = Some (Inr (Num m, flow))"
    and a: "\<forall>i<length ?c. \<forall>j<length ?c. \<exists>x. flow ! i ! j = Num x"
    by blast
  have "(0::nat) < length ?c" "(1::nat) < length ?c" by simp_all
  with a have "\<exists>x. flow ! 0 ! 1 = Num x" by blast
  with r show ?thesis by blast
qed



text \<open>
  C3, as stated: after the engine completes, every node other than the source and the
  sink has as much flow coming in as going out, whatever the capacity matrix. On three
  nodes with the unbounded edges \<open>0 \<rightarrow> 1\<close> and \<open>1 \<rightarrow> 2\<close>, source 0 and sink 2, the one
  augmentation pushes \<^verbatim>\<open>inf\<close>: the column of node 1 holds \<^verbatim>\<open>inf\<close> and \<^verbatim>\<open>-inf\<close>, and so
  does its row. Both sums are NaN, and NaN equals nothing.
\<close>

theorem flow_conservation_counterexample:
  "edmonds_karp [[Num 0, PInf, Num 0], [Num 0, Num 0, PInf], [Num 0, Num 0, Num 0]] 0 2
     = Some (Inr (PInf, [[Num 0, PInf, Num 0], [NInf, Num 0, PInf], [Num 0, NInf, Num 0]]))
   \<and> psum (map (\<lambda>row. row ! 1) [[Num 0, PInf, Num 0], [NInf, Num 0, PInf], [Num 0, NInf, Num 0]])
     = NaN
   \<and> psum ([[Num 0, PInf, Num 0], [NInf, Num 0, PInf], [Num 0, NInf, Num 0]] ! 1) = NaN
   \<and> \<not> peq (psum (map (\<lambda>row. row ! 1)
              [[Num 0, PInf, Num 0], [NInf, Num 0, PInf], [Num 0, NInf, Num 0]]))
           (psum ([[Num 0, PInf, Num 0], [NInf, Num 0, PInf], [Num 0, NInf, Num 0]] ! 1))"
proof -
  let ?F = "[[Num 0, PInf, Num 0], [NInf, Num 0, PInf], [Num 0, NInf, Num 0]]"
  have "edmonds_karp [[Num 0, PInf, Num 0], [Num 0, Num 0, PInf], [Num 0, Num 0, Num 0]] 0 2
     = Some (Inr (PInf, ?F))"
    by code_simp
  moreover have c: "psum (map (\<lambda>row. row ! 1) ?F) = NaN" by (simp add: psum_def)
  moreover have r: "psum (?F ! 1) = NaN" by (simp add: psum_def)
  moreover have "\<not> peq (psum (map (\<lambda>row. row ! 1) ?F)) (psum (?F ! 1))"
    unfolding c r by (simp add: peq_def)
  ultimately show ?thesis by blast
qed

text \<open>
  C3, amended. On the domain of the engine (as for C2, with integer capacities of either
  sign) the engine completes, and in the flow matrix it returns every node other than the
  source and the sink has as much flow coming in (the sum of its column) as going out (the
  sum of its row); with the skew symmetry of the matrix both sums are zero.
\<close>

theorem flow_conservation:
  assumes "ek_domain capacity source sink"
  shows "\<exists>max_flow flow.
    edmonds_karp capacity source sink = Some (Inr (max_flow, flow)) \<and>
    (\<forall>v<length capacity. v \<noteq> source \<and> v \<noteq> sink \<longrightarrow>
       peq (psum (map (\<lambda>row. row ! v) flow)) (psum (flow ! v)) \<and>
       psum (flow ! v) = Num 0)"
proof -
  let ?n = "length capacity"
  from edmonds_karp_domain_result [OF assms] obtain k flow parent max_flow where
    r: "edmonds_karp capacity source sink = Some (Inr (max_flow, flow))"
      "ek_inv capacity source sink (flow, parent, max_flow)"
    by blast
  from r(2) have an: "all_num ?n flow"
    and skew: "\<forall>i<?n. \<forall>j<?n. fl flow i j = - fl flow j i"
    and cons: "\<forall>i<?n. i \<noteq> source \<and> i \<noteq> sink \<longrightarrow> out_flow ?n flow i = 0"
    unfolding ek_inv_def prod.case by blast+
  have "peq (psum (map (\<lambda>row. row ! v) flow)) (psum (flow ! v)) \<and> psum (flow ! v) = Num 0"
    if v: "v < ?n" "v \<noteq> source \<and> v \<noteq> sink" for v
  proof -
    from cons v have o: "out_flow ?n flow v = 0" by blast
    have "(\<Sum>i<?n. fl flow i v) = (\<Sum>i<?n. - fl flow v i)"
    proof (rule sum.cong [OF refl])
      fix i assume "i \<in> {..<?n}"
      then have "i < ?n" by simp
      with skew v(1) show "fl flow i v = - fl flow v i" by blast
    qed
    also have "\<dots> = - out_flow ?n flow v" by (simp add: out_flow_def sum_negf)
    finally have "(\<Sum>i<?n. fl flow i v) = 0" using o by simp
    with psum_column [OF an v(1)] psum_row [OF an v(1)] o show ?thesis
      by (simp add: peq_def)
  qed
  with r(1) show ?thesis by blast
qed

theorem flow_conservation_witness:
  "peq (psum (map (\<lambda>row. row ! 1)
          [[Num 0, Num 3, Num 0], [Num (- 3), Num 0, Num 3], [Num 0, Num (- 3), Num 0]]))
       (psum ([[Num 0, Num 3, Num 0], [Num (- 3), Num 0, Num 3], [Num 0, Num (- 3), Num 0]] ! 1))
   \<and> psum ([[Num 0, Num 3, Num 0], [Num (- 3), Num 0, Num 3], [Num 0, Num (- 3), Num 0]] ! 1)
       = Num 0"
proof -
  let ?c = "[[Num 0, PInf, Num 0], [Num 0, Num 0, Num 3], [Num 0, Num 0, Num 0]]"
  from flow_conservation [OF example_domain] obtain max_flow flow where
    r: "edmonds_karp ?c 0 2 = Some (Inr (max_flow, flow))"
    and c: "\<forall>v<length ?c. v \<noteq> 0 \<and> v \<noteq> 2 \<longrightarrow>
       peq (psum (map (\<lambda>row. row ! v) flow)) (psum (flow ! v)) \<and> psum (flow ! v) = Num 0"
    by blast
  note e = r [unfolded example_run]
  have "(Num 3, [[Num 0, Num 3, Num 0], [Num (- 3), Num 0, Num 3], [Num 0, Num (- 3), Num 0]]) = (max_flow, flow)"
    by (rule Inr_inject, rule option.inject [THEN iffD1]) (rule e)
  then have f: "flow = [[Num 0, Num 3, Num 0], [Num (- 3), Num 0, Num 3], [Num 0, Num (- 3), Num 0]]"
    by blast
  have "(1::nat) < length ?c" "(1::nat) \<noteq> 0 \<and> (1::nat) \<noteq> 2" by simp_all
  with c have "peq (psum (map (\<lambda>row. row ! 1) flow)) (psum (flow ! 1)) \<and> psum (flow ! 1) = Num 0"
    by blast
  then show ?thesis unfolding f .
qed

end
